theory Spec2Isabelle
  imports Complex_Main
begin

section \<open>Data model\<close>

text \<open>
  A Python \<open>str\<close> is a sequence of Unicode code points, so a string is a list of
  code points; string literals of the source are written through \<open>lit\<close>.
  Python floats are modelled as reals (rounding, infinities and NaN are not modelled).
\<close>

type_synonym pystr = "int list"

definition lit :: "string \<Rightarrow> pystr" where
  "lit s = map of_char s"

datatype head = IGST | CGST_SGST | ZERO

text \<open>The class \<open>Invoice\<close> with its twelve slots; \<open>None\<close> is the value \<open>None\<close>
  of the three match fields.\<close>

record invoice =
  row_idx :: nat
  gstin :: pystr
  igst :: real
  cgst :: real
  sgst :: real
  party :: pystr
  head :: head
  amount :: real
  source :: pystr
  match_id :: "nat option"
  match_type :: "pystr option"
  matched_with_row :: "nat option"

text \<open>The truth value of \<open>inv.match_id\<close>: \<open>None\<close> and \<open>0\<close> are false.\<close>

definition claimed :: "invoice \<Rightarrow> bool" where
  "claimed r = (case match_id r of None \<Rightarrow> False | Some m \<Rightarrow> m \<noteq> 0)"

text \<open>
  The state that \<open>match_invoices\<close> works on: the two lists of invoice objects, mutated
  in place, and the local \<open>match_counter\<close>. The two lists hold distinct objects
  (\<open>read_invoices\<close> creates every object afresh), so an object is its list and position.
\<close>

record mstate =
  list1 :: "invoice list"
  list2 :: "invoice list"
  match_counter :: nat

section \<open>The matching engine\<close>

text \<open>The six assignments that link \<open>inv1 = list1[i]\<close> with \<open>best_match = list2[j]\<close>,
  followed by \<open>match_counter += 1\<close>.\<close>

definition link :: "pystr \<Rightarrow> nat \<Rightarrow> nat \<Rightarrow> mstate \<Rightarrow> mstate" where
  "link desc i j s =
     (let inv1 = list1 s ! i; best_match = list2 s ! j; c = match_counter s
      in \<lparr> list1 = (list1 s)[i := inv1\<lparr> match_id := Some c, match_type := Some desc,
                                         matched_with_row := Some (row_idx best_match) \<rparr>],
           list2 = (list2 s)[j := best_match\<lparr> match_id := Some c, match_type := Some desc,
                                               matched_with_row := Some (row_idx inv1) \<rparr>],
           match_counter = c + 1 \<rparr>)"

text \<open>
  One round of the candidate loop of phases 1 and 2. The pair \<open>(best_match, best_diff)\<close>
  is \<open>None\<close> while \<open>best_match is None\<close> and \<open>best_diff = inf\<close>, where
  \<open>diff < best_diff\<close> holds for every finite \<open>diff\<close>.
\<close>

definition scan_step :: "real \<Rightarrow> real \<Rightarrow> invoice list \<Rightarrow> (nat \<times> real) option \<Rightarrow> nat
    \<Rightarrow> (nat \<times> real) option" where
  "scan_step tolerance a l2 best j =
     (if claimed (l2 ! j) then best
      else let diff = \<bar>a - amount (l2 ! j)\<bar>
           in if diff \<le> tolerance \<and> (case best of None \<Rightarrow> True | Some (_, best_diff) \<Rightarrow> diff < best_diff)
              then Some (j, diff) else best)"

definition best_candidate :: "real \<Rightarrow> real \<Rightarrow> invoice list \<Rightarrow> nat list \<Rightarrow> nat option" where
  "best_candidate tolerance a l2 candidates =
     map_option fst (foldl (scan_step tolerance a l2) None candidates)"

text \<open>
  A \<open>defaultdict(list)\<close> filled by one pass over \<open>list2\<close>: the value at a key is the list
  of the positions of the unclaimed records that pass \<open>keep\<close> and have that key, in the
  order of \<open>list2\<close>; \<open>get(key, [])\<close> of an absent key is the empty list.
\<close>

definition index_by :: "(invoice \<Rightarrow> 'k) \<Rightarrow> (invoice \<Rightarrow> bool) \<Rightarrow> invoice list \<Rightarrow> 'k \<Rightarrow> nat list" where
  "index_by key keep l2 k =
     filter (\<lambda>j. \<not> claimed (l2 ! j) \<and> keep (l2 ! j) \<and> key (l2 ! j) = k) [0..<length l2]"

subsection \<open>Phase 1\<close>

definition PERFECT_MATCH :: pystr where
  "PERFECT_MATCH = lit ''Perfect Match''"

definition phase1_choice :: "real \<Rightarrow> (pystr \<times> head \<Rightarrow> nat list) \<Rightarrow> mstate \<Rightarrow> nat \<Rightarrow> nat option" where
  "phase1_choice tolerance map2_key s i =
     (let inv1 = list1 s ! i
      in best_candidate tolerance (amount inv1) (list2 s) (map2_key (gstin inv1, head inv1)))"

definition phase1_iter :: "real \<Rightarrow> (pystr \<times> head \<Rightarrow> nat list) \<Rightarrow> mstate \<Rightarrow> nat \<Rightarrow> mstate" where
  "phase1_iter tolerance map2_key s i =
     (if claimed (list1 s ! i) then s
      else case phase1_choice tolerance map2_key s i of
             None \<Rightarrow> s
           | Some j \<Rightarrow> link PERFECT_MATCH i j s)"

definition phase1_map :: "invoice list \<Rightarrow> pystr \<times> head \<Rightarrow> nat list" where
  "phase1_map l2 = index_by (\<lambda>r. (gstin r, head r)) (\<lambda>r. True) l2"

definition phase1 :: "real \<Rightarrow> mstate \<Rightarrow> mstate" where
  "phase1 tolerance s =
     foldl (phase1_iter tolerance (phase1_map (list2 s))) s [0..<length (list1 s)]"

subsection \<open>Phase 2\<close>

definition MISSING_GSTIN_IN :: "pystr \<Rightarrow> pystr" where
  "MISSING_GSTIN_IN name = lit ''Match (Missing GSTIN in '' @ name @ lit '')''"

definition phase2_choice :: "real \<Rightarrow> (head \<Rightarrow> nat list) \<Rightarrow> mstate \<Rightarrow> nat \<Rightarrow> nat option" where
  "phase2_choice tolerance m s i =
     (let inv1 = list1 s ! i
      in best_candidate tolerance (amount inv1) (list2 s) (m (head inv1)))"

text \<open>Sub-case A: \<open>list1\<close> has the GSTIN, \<open>list2\<close> has none.\<close>

definition phase2a_iter :: "real \<Rightarrow> pystr \<Rightarrow> (head \<Rightarrow> nat list) \<Rightarrow> mstate \<Rightarrow> nat \<Rightarrow> mstate" where
  "phase2a_iter tolerance name2 map2_no_gstin s i =
     (if claimed (list1 s ! i) then s
      else if gstin (list1 s ! i) = [] then s
      else case phase2_choice tolerance map2_no_gstin s i of
             None \<Rightarrow> s
           | Some j \<Rightarrow> link (MISSING_GSTIN_IN name2) i j s)"

definition phase2a_map :: "invoice list \<Rightarrow> head \<Rightarrow> nat list" where
  "phase2a_map l2 = index_by head (\<lambda>r. gstin r = []) l2"

definition phase2a :: "real \<Rightarrow> pystr \<Rightarrow> mstate \<Rightarrow> mstate" where
  "phase2a tolerance name2 s =
     foldl (phase2a_iter tolerance name2 (phase2a_map (list2 s))) s [0..<length (list1 s)]"

text \<open>Sub-case B: \<open>list1\<close> has no GSTIN, \<open>list2\<close> has one.\<close>

definition phase2b_iter :: "real \<Rightarrow> pystr \<Rightarrow> (head \<Rightarrow> nat list) \<Rightarrow> mstate \<Rightarrow> nat \<Rightarrow> mstate" where
  "phase2b_iter tolerance name1 map2_with_gstin s i =
     (if claimed (list1 s ! i) then s
      else if gstin (list1 s ! i) \<noteq> [] then s
      else case phase2_choice tolerance map2_with_gstin s i of
             None \<Rightarrow> s
           | Some j \<Rightarrow> link (MISSING_GSTIN_IN name1) i j s)"

definition phase2b_map :: "invoice list \<Rightarrow> head \<Rightarrow> nat list" where
  "phase2b_map l2 = index_by head (\<lambda>r. gstin r \<noteq> []) l2"

definition phase2b :: "real \<Rightarrow> pystr \<Rightarrow> mstate \<Rightarrow> mstate" where
  "phase2b tolerance name1 s =
     foldl (phase2b_iter tolerance name1 (phase2b_map (list2 s))) s [0..<length (list1 s)]"

subsection \<open>Phase 3\<close>

text \<open>
  \<open>bisect.bisect_left\<close> of the Python standard library: the binary search
  \<^verbatim>\<open>while lo < hi: mid = (lo + hi) // 2; if a[mid] < x: lo = mid + 1 else: hi = mid\<close>
  started at \<open>lo = 0\<close>, \<open>hi = len(a)\<close>.
\<close>

function bisect_left_from :: "real list \<Rightarrow> real \<Rightarrow> nat \<Rightarrow> nat \<Rightarrow> nat" where
  "bisect_left_from a x lo hi =
     (if lo < hi
      then let mid = (lo + hi) div 2
           in if a ! mid < x then bisect_left_from a x (mid + 1) hi
              else bisect_left_from a x lo mid
      else lo)"
  by pat_completeness auto
termination
  by (relation "measure (\<lambda>(a, x, lo, hi). hi - lo)") auto

definition bisect_left :: "real list \<Rightarrow> real \<Rightarrow> nat" where
  "bisect_left a x = bisect_left_from a x 0 (length a)"

text \<open>
  One of the two outward loops of phase 3 over the positions \<open>js\<close> still to visit:
  \<open>break\<close> at the first difference above the tolerance, \<open>continue\<close> past a claimed
  candidate, and keep a strictly smaller difference.
\<close>

fun scan_sorted :: "real \<Rightarrow> real \<Rightarrow> invoice list \<Rightarrow> nat list \<Rightarrow> (nat \<times> real) option
    \<Rightarrow> (nat \<times> real) option" where
  "scan_sorted tolerance a l2 [] best = best"
| "scan_sorted tolerance a l2 (j # js) best =
     (let diff = \<bar>amount (l2 ! j) - a\<bar>
      in if diff > tolerance then best
         else if claimed (l2 ! j) then scan_sorted tolerance a l2 js best
         else if (case best of None \<Rightarrow> True | Some (_, best_diff) \<Rightarrow> diff < best_diff)
              then scan_sorted tolerance a l2 js (Some (j, diff))
              else scan_sorted tolerance a l2 js best)"

text \<open>
  \<open>sorted_candidates_map\<close> and \<open>candidates_amounts_map\<close>: per head, the unclaimed
  records of \<open>list2\<close> sorted by amount (\<open>list.sort\<close> is stable, as \<open>sort_key\<close> is), and
  their amounts.
\<close>

definition sorted_candidates_map :: "invoice list \<Rightarrow> head \<Rightarrow> nat list" where
  "sorted_candidates_map l2 h =
     sort_key (\<lambda>j. amount (l2 ! j))
       (filter (\<lambda>j. \<not> claimed (l2 ! j)) (index_by head (\<lambda>r. True) l2 h))"

definition candidates_amounts_map :: "invoice list \<Rightarrow> head \<Rightarrow> real list" where
  "candidates_amounts_map l2 h = map (\<lambda>j. amount (l2 ! j)) (sorted_candidates_map l2 h)"

definition phase3_choice :: "real \<Rightarrow> (head \<Rightarrow> nat list) \<Rightarrow> (head \<Rightarrow> real list) \<Rightarrow> mstate \<Rightarrow> nat
    \<Rightarrow> nat option" where
  "phase3_choice tolerance smap amap s i =
     (let inv1 = list1 s ! i;
          candidates = smap (head inv1);
          candidate_amounts = amap (head inv1)
      in if candidates = [] then None
         else let idx = bisect_left candidate_amounts (amount inv1);
                  best = scan_sorted tolerance (amount inv1) (list2 s) (drop idx candidates) None;
                  best = scan_sorted tolerance (amount inv1) (list2 s) (rev (take idx candidates)) best
              in map_option fst best)"

definition PROBABLE_MATCH :: pystr where
  "PROBABLE_MATCH = lit ''Probable Match (GSTIN Mismatch)''"

definition MATCH_NO_GSTINS :: pystr where
  "MATCH_NO_GSTINS = lit ''Match (No GSTINs)''"

definition match_desc :: "invoice \<Rightarrow> invoice \<Rightarrow> pystr" where
  "match_desc inv1 best_match =
     (if gstin inv1 \<noteq> [] \<and> gstin best_match \<noteq> [] \<and> gstin inv1 \<noteq> gstin best_match
      then PROBABLE_MATCH else MATCH_NO_GSTINS)"

definition phase3_iter :: "real \<Rightarrow> (head \<Rightarrow> nat list) \<Rightarrow> (head \<Rightarrow> real list) \<Rightarrow> mstate \<Rightarrow> nat
    \<Rightarrow> mstate" where
  "phase3_iter tolerance smap amap s i =
     (if claimed (list1 s ! i) then s
      else case phase3_choice tolerance smap amap s i of
             None \<Rightarrow> s
           | Some j \<Rightarrow> link (match_desc (list1 s ! i) (list2 s ! j)) i j s)"

definition phase3 :: "real \<Rightarrow> mstate \<Rightarrow> mstate" where
  "phase3 tolerance s =
     foldl (phase3_iter tolerance (sorted_candidates_map (list2 s)) (candidates_amounts_map (list2 s)))
       s [0..<length (list1 s)]"

subsection \<open>The whole of \<open>match_invoices\<close>\<close>

definition start :: "invoice list \<Rightarrow> invoice list \<Rightarrow> mstate" where
  "start l1 l2 = \<lparr> list1 = l1, list2 = l2, match_counter = 1 \<rparr>"

definition match_invoices :: "invoice list \<Rightarrow> invoice list \<Rightarrow> real \<Rightarrow> pystr \<Rightarrow> pystr \<Rightarrow> mstate" where
  "match_invoices l1 l2 tolerance name1 name2 =
     phase3 tolerance (phase2b tolerance name1 (phase2a tolerance name2 (phase1 tolerance (start l1 l2))))"

section \<open>Reading and writing the sheets\<close>

text \<open>
  The exceptions the code can raise: the \<open>OverflowError\<close> of \<open>float(val)\<close> on an integer
  beyond the range of a float, and the \<open>ValueError\<close>s of \<open>process_reconciliation\<close>, one
  constructor per message template with the values formatted into it.
\<close>

datatype config_msg =
    CouldNotAutoDetect "pystr list"
  | SheetsMustDiffer
  | SheetNotFound "pystr list"
  | MissingRequiredColumns pystr "pystr list"
  | NoTaxColumns pystr

datatype py_error = OverflowError | ValueError config_msg

text \<open>
  The value of a cell as \<open>openpyxl\<close> hands it over: \<open>None\<close>, a \<open>bool\<close>, an \<open>int\<close>
  (unbounded), a \<open>float\<close>, a \<open>str\<close>, or another object (a date, a time) given by its
  truth value and its \<open>str()\<close>.
\<close>

datatype cell = CNone | CBool bool | CInt int | CFloat real | CStr pystr | CObj bool pystr

text \<open>
  The tables of the Python runtime that the code consults and the repository does not
  hold: which code points are whitespace (\<open>str.strip\<close>, \<open>\s\<close>), which are decimal digits
  and their values (\<open>\d\<close>, \<open>float\<close>), the case mappings of \<open>str.upper\<close> and
  \<open>str.lower\<close>, and \<open>str\<close> of a float. They are a parameter of every function below.
\<close>

record pyrt =
  isspace :: "int \<Rightarrow> bool"
  digit_value :: "int \<Rightarrow> int option"
  str_upper :: "pystr \<Rightarrow> pystr"
  str_lower :: "pystr \<Rightarrow> pystr"
  str_float :: "real \<Rightarrow> pystr"

text \<open>\<open>str\<close> of an \<open>int\<close>: its decimal digits, after a minus sign when it is negative.\<close>

function str_digits :: "int \<Rightarrow> pystr" where
  "str_digits n = (if n < 10 then [48 + n] else str_digits (n div 10) @ [48 + n mod 10])"
  by pat_completeness auto

termination
  by (relation "measure (\<lambda>n. nat n)") auto

definition str_int :: "int \<Rightarrow> pystr" where
  "str_int i = (if i < 0 then 45 # str_digits (- i) else str_digits i)"

definition py_str :: "pyrt \<Rightarrow> cell \<Rightarrow> pystr" where
  "py_str rt v =
     (case v of
        CNone \<Rightarrow> lit ''None''
      | CBool b \<Rightarrow> (if b then lit ''True'' else lit ''False'')
      | CInt i \<Rightarrow> str_int i
      | CFloat x \<Rightarrow> str_float rt x
      | CStr s \<Rightarrow> s
      | CObj b s \<Rightarrow> s)"

definition py_truthy :: "cell \<Rightarrow> bool" where
  "py_truthy v =
     (case v of
        CNone \<Rightarrow> False
      | CBool b \<Rightarrow> b
      | CInt i \<Rightarrow> i \<noteq> 0
      | CFloat x \<Rightarrow> x \<noteq> 0
      | CStr s \<Rightarrow> s \<noteq> []
      | CObj b s \<Rightarrow> b)"

definition strip :: "pyrt \<Rightarrow> pystr \<Rightarrow> pystr" where
  "strip rt s = rev (dropWhile (isspace rt) (rev (dropWhile (isspace rt) s)))"

subsection \<open>\<open>to_float\<close>\<close>

text \<open>
  \<open>float(val)\<close> on an \<open>int\<close>: Python rounds to the nearest float and raises
  \<open>OverflowError\<close> when the result would be \<open>2 ^ 1024\<close> or more in magnitude, that is
  from \<open>2 ^ 1024 - 2 ^ 970\<close> on; otherwise the value is taken as the integer itself.
\<close>

definition float_of_int :: "int \<Rightarrow> py_error + real" where
  "float_of_int i =
     (if \<bar>i\<bar> \<ge> 2 ^ 1024 - 2 ^ 970 then Inl OverflowError else Inr (of_int i))"

definition is_digit :: "pyrt \<Rightarrow> int \<Rightarrow> bool" where
  "is_digit rt c = (digit_value rt c \<noteq> None)"

text \<open>The pattern \<open>\d+(\.\d+)?\<close> anchored at the start of \<open>s\<close>, greedy.\<close>

definition number_at :: "pyrt \<Rightarrow> pystr \<Rightarrow> pystr option" where
  "number_at rt s =
     (let ds = takeWhile (is_digit rt) s; rest = drop (length ds) s
      in if ds = [] then None
         else case rest of
                [] \<Rightarrow> Some ds
              | c # t \<Rightarrow>
                  if c = 46 \<and> takeWhile (is_digit rt) t \<noteq> []
                  then Some (ds @ 46 # takeWhile (is_digit rt) t)
                  else Some ds)"

text \<open>The pattern \<open>-?\d+(\.\d+)?\<close> anchored at the start of \<open>s\<close>: the sign is taken when a
  number follows it, and given up otherwise.\<close>

definition match_at :: "pyrt \<Rightarrow> pystr \<Rightarrow> pystr option" where
  "match_at rt s =
     (case s of
        [] \<Rightarrow> None
      | c # t \<Rightarrow>
          if c = 45
          then (case number_at rt t of Some m \<Rightarrow> Some (45 # m) | None \<Rightarrow> number_at rt s)
          else number_at rt s)"

text \<open>\<open>re.search\<close>: the match at the leftmost position that has one.\<close>

fun re_search :: "pyrt \<Rightarrow> pystr \<Rightarrow> pystr option" where
  "re_search rt [] = None"
| "re_search rt (c # t) =
     (case match_at rt (c # t) of Some m \<Rightarrow> Some m | None \<Rightarrow> re_search rt t)"

definition digits_value :: "pyrt \<Rightarrow> pystr \<Rightarrow> int" where
  "digits_value rt ds =
     foldl (\<lambda>acc c. 10 * acc + (case digit_value rt c of Some d \<Rightarrow> d | None \<Rightarrow> 0)) 0 ds"

text \<open>
  \<open>float(match.group(0))\<close> on a matched text: the decimal value (as a real). The text
  always is a valid float literal, so the \<open>except\<close> branch around it is never taken.
\<close>

definition float_of_match :: "pyrt \<Rightarrow> pystr \<Rightarrow> real" where
  "float_of_match rt m =
     (let negative = (m \<noteq> [] \<and> hd m = 45);
          body = (if negative then tl m else m);
          ip = takeWhile (\<lambda>c. c \<noteq> 46) body;
          fp = drop (length ip + 1) body;
          v = of_int (digits_value rt ip) + of_int (digits_value rt fp) / 10 ^ length fp
      in if negative then - v else v)"

definition to_float :: "pyrt \<Rightarrow> cell \<Rightarrow> py_error + real" where
  "to_float rt val =
     (case val of
        CNone \<Rightarrow> Inr 0
      | CBool b \<Rightarrow> Inr (if b then 1 else 0)
      | CInt i \<Rightarrow> float_of_int i
      | CFloat x \<Rightarrow> Inr x
      | _ \<Rightarrow>
          let s = strip rt (py_str rt val)
          in if s = [] then Inr 0
             else let s = filter (\<lambda>c. c \<noteq> 44 \<and> c \<noteq> 160 \<and> c \<noteq> 8377) s;
                      s = (if s \<noteq> [] \<and> hd s = 40 \<and> last s = 41 then 45 # butlast (tl s) else s)
                  in case re_search rt s of
                       Some m \<Rightarrow> Inr (float_of_match rt m)
                     | None \<Rightarrow> Inr 0)"

subsection \<open>\<open>Invoice.__init__\<close> and \<open>read_invoices\<close>\<close>

text \<open>The dictionary \<open>data\<close> of one row: \<open>read_invoices\<close> sets all seven keys.\<close>

record rowdata =
  d_gstin :: cell
  d_party :: cell
  d_igst :: cell
  d_cgst :: cell
  d_sgst :: cell
  d_inv_no :: cell
  d_date :: cell

text \<open>\<open>str(x or '')\<close>.\<close>

definition text_of :: "pyrt \<Rightarrow> cell \<Rightarrow> pystr" where
  "text_of rt v = (if py_truthy v then py_str rt v else [])"

definition classify :: "real \<Rightarrow> real \<Rightarrow> real \<Rightarrow> head \<times> real" where
  "classify ig cg sg =
     (if \<bar>ig\<bar> > 1 / 100 then (IGST, ig)
      else if \<bar>cg\<bar> > 1 / 100 \<or> \<bar>sg\<bar> > 1 / 100
           then (CGST_SGST, if \<bar>cg\<bar> > 1 / 100 then cg else sg)
           else (ZERO, 0))"

definition Invoice_init :: "pyrt \<Rightarrow> nat \<Rightarrow> rowdata \<Rightarrow> pystr \<Rightarrow> py_error + invoice" where
  "Invoice_init rt r data source_sheet =
     (let g = str_upper rt (strip rt (text_of rt (d_gstin data)));
          g = (if g = lit ''NONE'' \<or> g = lit ''NAN'' then [] else g)
      in case to_float rt (d_igst data) of Inl e \<Rightarrow> Inl e | Inr ig \<Rightarrow>
         case to_float rt (d_cgst data) of Inl e \<Rightarrow> Inl e | Inr cg \<Rightarrow>
         case to_float rt (d_sgst data) of Inl e \<Rightarrow> Inl e | Inr sg \<Rightarrow>
           Inr \<lparr> row_idx = r, gstin = g, igst = ig, cgst = cg, sgst = sg,
                 party = strip rt (text_of rt (d_party data)),
                 head = fst (classify ig cg sg), amount = snd (classify ig cg sg),
                 source = source_sheet,
                 match_id = None, match_type = None, matched_with_row = None \<rparr>)"

text \<open>
  A worksheet: its dimensions and the value of every cell (\<open>None\<close> where there is none).
  Writing a cell extends the dimensions as \<open>openpyxl\<close> does.
\<close>

record worksheet =
  max_row :: nat
  max_column :: nat
  cells :: "nat \<Rightarrow> nat \<Rightarrow> cell"

definition set_cell :: "nat \<Rightarrow> nat \<Rightarrow> cell \<Rightarrow> worksheet \<Rightarrow> worksheet" where
  "set_cell r c v ws =
     \<lparr> max_row = max (max_row ws) r, max_column = max (max_column ws) c,
       cells = (cells ws)(r := (cells ws r)(c := v)) \<rparr>"

text \<open>The dictionary \<open>mapping\<close> of \<open>get_header_map\<close>: a column number or \<open>None\<close> per key.\<close>

record colmap =
  c_gstin :: "nat option"
  c_party :: "nat option"
  c_igst :: "nat option"
  c_cgst :: "nat option"
  c_sgst :: "nat option"
  c_inv_no :: "nat option"
  c_date :: "nat option"

text \<open>\<open>data[k]\<close> after the inner loop: the cell's value \<open>if col_idx\<close>, else \<open>None\<close>.\<close>

definition col_value :: "worksheet \<Rightarrow> nat \<Rightarrow> nat option \<Rightarrow> cell" where
  "col_value ws r col_idx =
     (case col_idx of None \<Rightarrow> CNone | Some c \<Rightarrow> if c \<noteq> 0 then cells ws r c else CNone)"

definition row_data :: "worksheet \<Rightarrow> colmap \<Rightarrow> nat \<Rightarrow> rowdata" where
  "row_data ws mapping r =
     \<lparr> d_gstin = col_value ws r (c_gstin mapping), d_party = col_value ws r (c_party mapping),
       d_igst = col_value ws r (c_igst mapping), d_cgst = col_value ws r (c_cgst mapping),
       d_sgst = col_value ws r (c_sgst mapping), d_inv_no = col_value ws r (c_inv_no mapping),
       d_date = col_value ws r (c_date mapping) \<rparr>"

definition blank :: "pyrt \<Rightarrow> cell \<Rightarrow> bool" where
  "blank rt v = (v = CNone \<or> strip rt (py_str rt v) = [])"

definition is_empty :: "pyrt \<Rightarrow> rowdata \<Rightarrow> bool" where
  "is_empty rt data =
     (blank rt (d_gstin data) \<and> blank rt (d_party data) \<and> blank rt (d_igst data) \<and>
      blank rt (d_cgst data) \<and> blank rt (d_sgst data) \<and> blank rt (d_inv_no data) \<and>
      blank rt (d_date data))"

text \<open>The loop of \<open>read_invoices\<close> over the rows still to read; an exception ends it.\<close>

fun read_rows :: "pyrt \<Rightarrow> worksheet \<Rightarrow> colmap \<Rightarrow> pystr \<Rightarrow> nat list \<Rightarrow> py_error + invoice list" where
  "read_rows rt ws mapping sheet_name [] = Inr []"
| "read_rows rt ws mapping sheet_name (r # rs) =
     (let data = row_data ws mapping r
      in if is_empty rt data then read_rows rt ws mapping sheet_name rs
         else case Invoice_init rt r data sheet_name of
                Inl e \<Rightarrow> Inl e
              | Inr v \<Rightarrow>
                  (case read_rows rt ws mapping sheet_name rs of
                     Inl e \<Rightarrow> Inl e
                   | Inr invoices \<Rightarrow> Inr (if head v \<noteq> ZERO then v # invoices else invoices)))"

definition read_invoices :: "pyrt \<Rightarrow> worksheet \<Rightarrow> colmap \<Rightarrow> pystr \<Rightarrow> py_error + invoice list" where
  "read_invoices rt ws mapping sheet_name =
     read_rows rt ws mapping sheet_name [2..<max_row ws + 1]"

subsection \<open>\<open>write_results\<close>\<close>

definition opt_int :: "nat option \<Rightarrow> cell" where
  "opt_int v = (case v of None \<Rightarrow> CNone | Some n \<Rightarrow> CInt (int n))"

text \<open>\<open>inv_map = {inv.row_idx: inv for inv in invoices}\<close>: a later record replaces an
  earlier one of the same row.\<close>

definition inv_map :: "invoice list \<Rightarrow> nat \<Rightarrow> invoice option" where
  "inv_map invoices = map_of (rev (map (\<lambda>v. (row_idx v, v)) invoices))"

definition status_of :: "pystr \<Rightarrow> invoice \<Rightarrow> pystr" where
  "status_of other_name v =
     (case match_type v of
        Some t \<Rightarrow> if t \<noteq> [] then t else lit ''Missing in '' @ other_name
      | None \<Rightarrow> lit ''Missing in '' @ other_name)"

definition write_row :: "invoice list \<Rightarrow> pystr \<Rightarrow> nat \<Rightarrow> worksheet \<Rightarrow> nat \<Rightarrow> worksheet" where
  "write_row invoices other_name max_col ws r =
     (case inv_map invoices r of
        Some v \<Rightarrow>
          set_cell r (max_col + 3) (opt_int (matched_with_row v))
            (set_cell r (max_col + 2) (opt_int (match_id v))
              (set_cell r (max_col + 1) (CStr (status_of other_name v)) ws))
      | None \<Rightarrow> set_cell r (max_col + 1) (CStr (lit ''Ignored/Zero'')) ws)"

definition write_results :: "worksheet \<Rightarrow> invoice list \<Rightarrow> pystr \<Rightarrow> pystr \<Rightarrow> worksheet" where
  "write_results ws invoices this_name other_name =
     (let max_col = max_column ws;
          ws = set_cell 1 (max_col + 1) (CStr (lit ''Match_Status'')) ws;
          ws = set_cell 1 (max_col + 2) (CStr (lit ''Match_ID'')) ws;
          ws = set_cell 1 (max_col + 3) (CStr (lit ''Matched_Row_Idx'')) ws
      in foldl (write_row invoices other_name max_col) ws [2..<max_row ws + 1])"

subsection \<open>\<open>get_header_map\<close>\<close>

text \<open>\<open>re.sub(r"\s+", " ", s)\<close>: every maximal run of whitespace becomes one space.\<close>

fun collapse_ws :: "pyrt \<Rightarrow> pystr \<Rightarrow> pystr" where
  "collapse_ws rt [] = []"
| "collapse_ws rt (c # t) =
     (if isspace rt c
      then (if t \<noteq> [] \<and> isspace rt (hd t) then collapse_ws rt t else 32 # collapse_ws rt t)
      else c # collapse_ws rt t)"

definition normalize_header :: "pyrt \<Rightarrow> cell \<Rightarrow> pystr" where
  "normalize_header rt h =
     (if h = CNone then [] else collapse_ws rt (str_lower rt (strip rt (py_str rt h))))"

text \<open>\<open>k in h\<close> on strings: \<open>k\<close> occurs in \<open>h\<close> as a contiguous piece.\<close>

fun contains :: "pystr \<Rightarrow> pystr \<Rightarrow> bool" where
  "contains [] k = (k = [])"
| "contains (c # t) k = (take (length k) (c # t) = k \<or> contains t k)"

text \<open>
  The dictionary \<open>headers\<close>, in insertion order: a header text seen again keeps its place
  and takes the later column.
\<close>

fun dict_set :: "('k \<times> 'v) list \<Rightarrow> 'k \<Rightarrow> 'v \<Rightarrow> ('k \<times> 'v) list" where
  "dict_set [] k v = [(k, v)]"
| "dict_set (p # ps) k v = (if fst p = k then (k, v) # ps else p # dict_set ps k v)"

definition headers_of :: "pyrt \<Rightarrow> worksheet \<Rightarrow> (pystr \<times> nat) list" where
  "headers_of rt ws =
     foldl (\<lambda>headers col.
              let norm = normalize_header rt (cells ws 1 col)
              in if norm \<noteq> [] then dict_set headers norm col else headers)
       [] [1..<max_column ws + 1]"

definition find_col :: "(pystr \<times> nat) list \<Rightarrow> pystr list \<Rightarrow> nat option" where
  "find_col headers keywords =
     (case concat (map (\<lambda>k. filter (\<lambda>(h, col). contains h k) headers) keywords) of
        [] \<Rightarrow> None
      | (h, col) # _ \<Rightarrow> Some col)"

definition get_header_map :: "pyrt \<Rightarrow> worksheet \<Rightarrow> colmap" where
  "get_header_map rt ws =
     (let headers = headers_of rt ws
      in \<lparr> c_gstin = find_col headers [lit ''gstin'', lit ''gst number'', lit ''gst no'', lit ''tin''],
           c_party = find_col headers [lit ''party'', lit ''name'', lit ''legal name'',
                       lit ''trade name'', lit ''supplier'', lit ''customer''],
           c_igst = find_col headers [lit ''igst'', lit ''integrated tax''],
           c_cgst = find_col headers [lit ''cgst'', lit ''central tax''],
           c_sgst = find_col headers [lit ''sgst'', lit ''state tax'', lit ''utgst''],
           c_inv_no = find_col headers [lit ''invoice number'', lit ''inv no'', lit ''bill no''],
           c_date = find_col headers [lit ''invoice date'', lit ''date'', lit ''inv dt''] \<rparr>)"

subsection \<open>\<open>process_reconciliation\<close>\<close>

datatype sheet_class = BOOKS | GSTR2B | GSTR3B | UNKNOWN

definition classify_sheet :: "pyrt \<Rightarrow> pystr \<Rightarrow> sheet_class" where
  "classify_sheet rt name =
     (let n = str_lower rt name
      in if list_ex (contains n) [lit ''book'', lit ''purchase'', lit ''ledger'', lit ''pr'', lit ''register'']
         then BOOKS
         else if contains n (lit ''2b'') then GSTR2B
         else if contains n (lit ''3b'') then GSTR3B
         else UNKNOWN)"

text \<open>A loaded workbook: the sheet names in order and the sheet of a name.\<close>

record workbook =
  sheetnames :: "pystr list"
  sheet :: "pystr \<Rightarrow> worksheet"

text \<open>The truth value of a sheet name that may be \<open>None\<close>.\<close>

definition given :: "pystr option \<Rightarrow> bool" where
  "given name = (case name of None \<Rightarrow> False | Some n \<Rightarrow> n \<noteq> [])"

text \<open>
  The auto-detection of the two names. Only the first sheet of each class and the
  emptiness of the class are used, so the dictionary \<open>classified\<close> is read as the list of
  sheet names.
\<close>

definition auto_detect :: "pyrt \<Rightarrow> pystr list \<Rightarrow> pystr option \<times> pystr option" where
  "auto_detect rt sheets =
     (let books_sheets = filter (\<lambda>s. classify_sheet rt s = BOOKS) sheets;
          gstr2b_sheets = filter (\<lambda>s. classify_sheet rt s = GSTR2B) sheets;
          gstr3b_sheets = filter (\<lambda>s. classify_sheet rt s = GSTR3B) sheets
      in if books_sheets \<noteq> [] \<and> gstr2b_sheets \<noteq> [] then (Some (hd books_sheets), Some (hd gstr2b_sheets))
         else if books_sheets \<noteq> [] \<and> gstr3b_sheets \<noteq> [] then (Some (hd books_sheets), Some (hd gstr3b_sheets))
         else if gstr3b_sheets \<noteq> [] \<and> gstr2b_sheets \<noteq> [] then (Some (hd gstr3b_sheets), Some (hd gstr2b_sheets))
         else if length sheets = 2 then (Some (sheets ! 0), Some (sheets ! 1))
         else (None, None))"

definition resolve_names :: "pyrt \<Rightarrow> pystr list \<Rightarrow> pystr option \<Rightarrow> pystr option
    \<Rightarrow> pystr option \<times> pystr option" where
  "resolve_names rt sheets sheet1 sheet2 =
     (if \<not> given sheet1 \<and> \<not> given sheet2 then auto_detect rt sheets else (sheet1, sheet2))"

text \<open>\<open>m.get(c)\<close> is true for a column number other than \<open>0\<close>.\<close>

definition has_col :: "nat option \<Rightarrow> bool" where
  "has_col c = (case c of None \<Rightarrow> False | Some k \<Rightarrow> k \<noteq> 0)"

definition validate_map :: "colmap \<Rightarrow> pystr \<Rightarrow> py_error + unit" where
  "validate_map m sheet_name =
     (let missing = filter (\<lambda>c. \<not> has_col (snd c)) [(lit ''gstin'', c_gstin m)]
      in if missing \<noteq> [] then Inl (ValueError (MissingRequiredColumns sheet_name (map fst missing)))
         else if \<not> (has_col (c_igst m) \<or> has_col (c_cgst m) \<or> has_col (c_sgst m))
              then Inl (ValueError (NoTaxColumns sheet_name))
              else Inr ())"

text \<open>
  The value of \<open>process_reconciliation\<close>: an exception, or the workbook as saved, with
  both sheets annotated. \<open>matched\<close> tells whether \<open>match_invoices\<close> was reached.
\<close>

record outcome =
  saved :: workbook
  matched :: mstate

definition process_reconciliation :: "pyrt \<Rightarrow> workbook \<Rightarrow> pystr option \<Rightarrow> pystr option \<Rightarrow> real
    \<Rightarrow> py_error + outcome" where
  "process_reconciliation rt wb sheet1 sheet2 tolerance =
     (let sheets = sheetnames wb;
          (name1, name2) = resolve_names rt sheets sheet1 sheet2
      in if \<not> given name1 \<or> \<not> given name2 then Inl (ValueError (CouldNotAutoDetect sheets))
         else if name1 = name2 then Inl (ValueError SheetsMustDiffer)
         else if the name1 \<notin> set sheets \<or> the name2 \<notin> set sheets
              then Inl (ValueError (SheetNotFound sheets))
         else
           let n1 = the name1; n2 = the name2;
               ws1 = sheet wb n1; ws2 = sheet wb n2;
               map1 = get_header_map rt ws1; map2 = get_header_map rt ws2
           in case validate_map map1 n1 of Inl e \<Rightarrow> Inl e | Inr _ \<Rightarrow>
              case validate_map map2 n2 of Inl e \<Rightarrow> Inl e | Inr _ \<Rightarrow>
              case read_invoices rt ws1 map1 n1 of Inl e \<Rightarrow> Inl e | Inr inv1 \<Rightarrow>
              case read_invoices rt ws2 map2 n2 of Inl e \<Rightarrow> Inl e | Inr inv2 \<Rightarrow>
                let s = match_invoices inv1 inv2 tolerance n1 n2;
                    ws1 = write_results ws1 (list1 s) n1 n2;
                    ws2 = write_results ws2 (list2 s) n2 n1
                in Inr \<lparr> saved = wb\<lparr> sheet := (sheet wb)(n1 := ws1, n2 := ws2) \<rparr>, matched = s \<rparr>)"

text \<open>
  \<open>upload_file\<close> of \<open>app.py\<close> around the call: an exception \<open>e\<close> becomes the JSON
  \<open>{'error': str(e)}\<close> with status 500, which carries the exception's message as it is.
\<close>

datatype response = Download workbook | ErrorJson py_error nat

definition upload_response :: "py_error + outcome \<Rightarrow> response" where
  "upload_response result =
     (case result of Inl e \<Rightarrow> ErrorJson e 500 | Inr out \<Rightarrow> Download (saved out))"

text \<open>
  What the claim calls an invalid configuration: the two names are not resolved, are
  the same or are not sheets of the workbook, or one of the two sheets has no identifier
  column or none of the three tax columns.
\<close>

definition sheet_invalid :: "pyrt \<Rightarrow> worksheet \<Rightarrow> bool" where
  "sheet_invalid rt ws =
     (let m = get_header_map rt ws
      in \<not> has_col (c_gstin m) \<or> \<not> (has_col (c_igst m) \<or> has_col (c_cgst m) \<or> has_col (c_sgst m)))"

definition config_invalid :: "pyrt \<Rightarrow> workbook \<Rightarrow> pystr option \<Rightarrow> pystr option \<Rightarrow> bool" where
  "config_invalid rt wb sheet1 sheet2 =
     (let (name1, name2) = resolve_names rt (sheetnames wb) sheet1 sheet2
      in \<not> given name1 \<or> \<not> given name2 \<or> name1 = name2 \<or>
         the name1 \<notin> set (sheetnames wb) \<or> the name2 \<notin> set (sheetnames wb) \<or>
         sheet_invalid rt (sheet wb (the name1)) \<or> sheet_invalid rt (sheet wb (the name2)))"

subsection \<open>An instance of the runtime tables\<close>

text \<open>Python's tables on ASCII text (whitespace also for the Latin-1 and general
  punctuation blocks); used to run the functions on examples.\<close>

definition ascii_rt :: pyrt where
  "ascii_rt =
     \<lparr> isspace = (\<lambda>c. (9 \<le> c \<and> c \<le> 13) \<or> (28 \<le> c \<and> c \<le> 32) \<or> c = 133 \<or> c = 160 \<or>
                      c = 5760 \<or> (8192 \<le> c \<and> c \<le> 8202) \<or> c = 8232 \<or> c = 8233 \<or>
                      c = 8239 \<or> c = 8287 \<or> c = 12288),
       digit_value = (\<lambda>c. if 48 \<le> c \<and> c \<le> 57 then Some (c - 48) else None),
       str_upper = map (\<lambda>c. if 97 \<le> c \<and> c \<le> 122 then c - 32 else c),
       str_lower = map (\<lambda>c. if 65 \<le> c \<and> c \<le> 90 then c + 32 else c),
       str_float = (\<lambda>x. []) \<rparr>"

section \<open>Predicates used in the statements\<close>

text \<open>
  A candidate \<open>j\<close> is eligible for the amount \<open>a\<close> when it is unclaimed and within the
  tolerance. \<open>first_best\<close> says that \<open>j\<close> is the first position of the list \<open>cs\<close> of
  least difference among the eligible ones; \<open>scan_result\<close> is what a scan over \<open>cs\<close> holds
  in \<open>(best_match, best_diff)\<close>.
\<close>

definition diff_of :: "real \<Rightarrow> invoice list \<Rightarrow> nat \<Rightarrow> real" where
  "diff_of a l2 j = \<bar>a - amount (l2 ! j)\<bar>"

definition eligible :: "real \<Rightarrow> real \<Rightarrow> invoice list \<Rightarrow> nat \<Rightarrow> bool" where
  "eligible tolerance a l2 j = (\<not> claimed (l2 ! j) \<and> diff_of a l2 j \<le> tolerance)"

definition first_best :: "real \<Rightarrow> real \<Rightarrow> invoice list \<Rightarrow> nat list \<Rightarrow> nat \<Rightarrow> bool" where
  "first_best tolerance a l2 cs j =
     (eligible tolerance a l2 j \<and>
      (\<exists>pre post. cs = pre @ j # post \<and>
         (\<forall>k\<in>set pre. eligible tolerance a l2 k \<longrightarrow> diff_of a l2 j < diff_of a l2 k) \<and>
         (\<forall>k\<in>set post. eligible tolerance a l2 k \<longrightarrow> diff_of a l2 j \<le> diff_of a l2 k)))"

definition scan_result :: "real \<Rightarrow> real \<Rightarrow> invoice list \<Rightarrow> nat list \<Rightarrow> (nat \<times> real) option \<Rightarrow> bool" where
  "scan_result tolerance a l2 cs r =
     (case r of
        None \<Rightarrow> (\<forall>j\<in>set cs. \<not> eligible tolerance a l2 j)
      | Some (j, d) \<Rightarrow> d = diff_of a l2 j \<and> first_best tolerance a l2 cs j)"

subsection \<open>What a run never changes\<close>

text \<open>
  \<open>evolves s s'\<close>: the lists keep their lengths, every record keeps its data outside the
  three match fields, a claimed record is kept as it is, and the counter does not decrease.
\<close>

definition same_data :: "invoice \<Rightarrow> invoice \<Rightarrow> bool" where
  "same_data r r' =
     (row_idx r' = row_idx r \<and> gstin r' = gstin r \<and> igst r' = igst r \<and> cgst r' = cgst r \<and>
      sgst r' = sgst r \<and> party r' = party r \<and> head r' = head r \<and> amount r' = amount r \<and>
      source r' = source r)"

definition keeps :: "invoice list \<Rightarrow> invoice list \<Rightarrow> bool" where
  "keeps l l' =
     (length l' = length l \<and>
      (\<forall>k<length l. same_data (l ! k) (l' ! k) \<and> (claimed (l ! k) \<longrightarrow> l' ! k = l ! k)))"

definition evolves :: "mstate \<Rightarrow> mstate \<Rightarrow> bool" where
  "evolves s s' =
     (keeps (list1 s) (list1 s') \<and> keeps (list2 s) (list2 s') \<and> match_counter s \<le> match_counter s')"

text \<open>
  The invariant of the matcher's state. \<open>paired s i j m\<close>: \<open>list1[i]\<close> and \<open>list2[j]\<close>
  carry the identifier \<open>m\<close>, refer to each other's rows, carry the same non-empty tag and
  lie within the tolerance. \<open>consistent\<close>: every record is unmatched or paired under an
  identifier from \<open>1\<close> up to the counter, no identifier occurs twice in a list, and every
  identifier below the counter is in use.
\<close>

definition unmatched :: "invoice \<Rightarrow> bool" where
  "unmatched r = (match_id r = None \<and> match_type r = None \<and> matched_with_row r = None)"

definition fresh :: "invoice list \<Rightarrow> bool" where
  "fresh l = list_all unmatched l"

definition tagged :: "invoice \<Rightarrow> bool" where
  "tagged r = (case match_type r of None \<Rightarrow> False | Some t \<Rightarrow> t \<noteq> [])"

definition paired :: "real \<Rightarrow> mstate \<Rightarrow> nat \<Rightarrow> nat \<Rightarrow> nat \<Rightarrow> bool" where
  "paired tolerance s i j m =
     (i < length (list1 s) \<and> j < length (list2 s) \<and>
      match_id (list1 s ! i) = Some m \<and> match_id (list2 s ! j) = Some m \<and>
      matched_with_row (list1 s ! i) = Some (row_idx (list2 s ! j)) \<and>
      matched_with_row (list2 s ! j) = Some (row_idx (list1 s ! i)) \<and>
      match_type (list2 s ! j) = match_type (list1 s ! i) \<and> tagged (list1 s ! i) \<and>
      \<bar>amount (list1 s ! i) - amount (list2 s ! j)\<bar> \<le> tolerance)"

definition consistent :: "real \<Rightarrow> mstate \<Rightarrow> bool" where
  "consistent tolerance s =
     (1 \<le> match_counter s \<and>
      (\<forall>i<length (list1 s). unmatched (list1 s ! i) \<or>
          (\<exists>m j. 0 < m \<and> m < match_counter s \<and> paired tolerance s i j m)) \<and>
      (\<forall>j<length (list2 s). unmatched (list2 s ! j) \<or>
          (\<exists>m i. 0 < m \<and> m < match_counter s \<and> paired tolerance s i j m)) \<and>
      (\<forall>i<length (list1 s). \<forall>i'<length (list1 s).
          match_id (list1 s ! i) \<noteq> None \<and> match_id (list1 s ! i) = match_id (list1 s ! i') \<longrightarrow> i = i') \<and>
      (\<forall>j<length (list2 s). \<forall>j'<length (list2 s).
          match_id (list2 s ! j) \<noteq> None \<and> match_id (list2 s ! j) = match_id (list2 s ! j') \<longrightarrow> j = j') \<and>
      (\<forall>m. 0 < m \<and> m < match_counter s \<longrightarrow> (\<exists>i j. paired tolerance s i j m)))"

definition shaped :: "real \<Rightarrow> nat \<Rightarrow> nat \<Rightarrow> mstate \<Rightarrow> bool" where
  "shaped tolerance n1 n2 s = (consistent tolerance s \<and> length (list1 s) = n1 \<and> length (list2 s) = n2)"

text \<open>
  \<open>later s t\<close>: the state \<open>t\<close> is reached from \<open>s\<close> by loop iterations of the phases, in any
  number and order.
\<close>

inductive later :: "mstate \<Rightarrow> mstate \<Rightarrow> bool" where
  later_refl: "later s s"
| later_phase1: "later s t \<Longrightarrow> later s (phase1_iter tolerance m t i)"
| later_phase2a: "later s t \<Longrightarrow> later s (phase2a_iter tolerance name2 m t i)"
| later_phase2b: "later s t \<Longrightarrow> later s (phase2b_iter tolerance name1 m t i)"
| later_phase3: "later s t \<Longrightarrow> later s (phase3_iter tolerance sm am t i)"

text \<open>Small inputs on which the functions are run.\<close>

definition mk :: "nat \<Rightarrow> string \<Rightarrow> head \<Rightarrow> real \<Rightarrow> invoice" where
  "mk r g h a = \<lparr> row_idx = r, gstin = lit g, igst = 0, cgst = 0, sgst = 0, party = [], head = h,
     amount = a, source = [], match_id = None, match_type = None, matched_with_row = None \<rparr>"

definition demo_a :: invoice where
  "demo_a = mk 2 ''G1'' IGST 100"

definition demo_b :: invoice where
  "demo_b = mk 2 ''G1'' IGST (201 / 2)"

definition demo_run :: mstate where
  "demo_run = match_invoices [demo_a] [demo_b] 1 (lit ''A'') (lit ''B'')"

definition demo_mid :: mstate where
  "demo_mid = phase1 1 (start [demo_a] [demo_b])"

text \<open>
  The order in which the two loops of phase 3 visit the sorted candidates, and what a
  candidate of phase 3 is.
\<close>

definition phase3_order :: "nat list \<Rightarrow> real list \<Rightarrow> real \<Rightarrow> nat list" where
  "phase3_order candidates candidate_amounts a =
     (let idx = bisect_left candidate_amounts a
      in drop idx candidates @ rev (take idx candidates))"


definition demo_x :: invoice where
  "demo_x = mk 2 ''X'' IGST 100"

definition demo_y :: invoice where
  "demo_y = mk 2 ''Y'' IGST (199 / 2)"

definition demo_z :: invoice where
  "demo_z = mk 3 ''Z'' IGST (199 / 2)"

definition demo_s3 :: mstate where
  "demo_s3 = start [demo_x] [demo_y, demo_z]"


text \<open>
  The common shape of the loop bodies of phases 1, 2A and 2B, and the tie-break property:
  \<open>list2[j]\<close> has the least difference among the unclaimed records within the tolerance
  that satisfy \<open>ok\<close>, and a strictly smaller one than each of them before position \<open>j\<close>.
\<close>

definition pass_iter :: "(invoice \<Rightarrow> bool) \<Rightarrow> (invoice \<Rightarrow> 'k) \<Rightarrow> pystr \<Rightarrow> real \<Rightarrow> ('k \<Rightarrow> nat list)
    \<Rightarrow> mstate \<Rightarrow> nat \<Rightarrow> mstate" where
  "pass_iter guard akey desc tolerance m s i =
     (if claimed (list1 s ! i) then s
      else if \<not> guard (list1 s ! i) then s
      else case best_candidate tolerance (amount (list1 s ! i)) (list2 s) (m (akey (list1 s ! i))) of
             None \<Rightarrow> s
           | Some j \<Rightarrow> link desc i j s)"

definition static :: "(invoice \<Rightarrow> 'a) \<Rightarrow> bool" where
  "static f = (\<forall>r r'. same_data r r' \<longrightarrow> f r = f r')"

definition tie_break_stable :: "real \<Rightarrow> mstate \<Rightarrow> nat \<Rightarrow> (invoice \<Rightarrow> bool) \<Rightarrow> nat \<Rightarrow> bool" where
  "tie_break_stable tolerance s i ok j =
     (\<forall>k<length (list2 s).
        \<not> claimed (list2 s ! k) \<and> ok (list2 s ! k) \<and>
        \<bar>amount (list1 s ! i) - amount (list2 s ! k)\<bar> \<le> tolerance \<longrightarrow>
        \<bar>amount (list1 s ! i) - amount (list2 s ! j)\<bar> \<le> \<bar>amount (list1 s ! i) - amount (list2 s ! k)\<bar> \<and>
        (k < j \<longrightarrow>
           \<bar>amount (list1 s ! i) - amount (list2 s ! j)\<bar> < \<bar>amount (list1 s ! i) - amount (list2 s ! k)\<bar>))"

definition demo_p :: invoice where
  "demo_p = mk 2 ''G1'' IGST 100"

definition demo_q :: invoice where
  "demo_q = mk 2 ''G1'' IGST (199 / 2)"

definition demo_r :: invoice where
  "demo_r = mk 3 ''G1'' IGST (201 / 2)"

definition demo_s1 :: mstate where
  "demo_s1 = start [demo_p] [demo_q, demo_r]"

definition demo_run3 :: mstate where
  "demo_run3 = match_invoices [demo_x] [demo_y, demo_z] 1 (lit ''A'') (lit ''B'')"

definition demo_pre3 :: mstate where
  "demo_pre3 = phase2b 1 (lit ''A'') (phase2a 1 (lit ''B'') (phase1 1 (start [demo_x] [demo_y, demo_z])))"

text \<open>The classification rule, read off a record.\<close>

definition classified :: "invoice \<Rightarrow> bool" where
  "classified v =
     (if \<bar>igst v\<bar> > 1 / 100 then head v = IGST \<and> amount v = igst v
      else if \<bar>cgst v\<bar> > 1 / 100 \<or> \<bar>sgst v\<bar> > 1 / 100
           then head v = CGST_SGST \<and> amount v = (if \<bar>cgst v\<bar> > 1 / 100 then cgst v else sgst v)
           else head v = ZERO \<and> amount v = 0)"

definition demo_ws :: worksheet where
  "demo_ws =
     \<lparr> max_row = 4, max_column = 3,
       cells = (\<lambda>r c.
         if r = 1 then (if c = 1 then CStr (lit ''GSTIN'') else if c = 2 then CStr (lit ''IGST'')
                        else if c = 3 then CStr (lit ''CGST'') else CNone)
         else if r = 2 then (if c = 1 then CStr (lit ''g1'') else if c = 2 then CStr (lit ''(50.00)'')
                        else CNone)
         else if r = 3 then (if c = 1 then CStr (lit ''g2'') else if c = 2 then CInt 0
                        else if c = 3 then CFloat (1 / 200) else CNone)
         else if r = 4 then (if c = 1 then CStr (lit ''g3'') else if c = 3 then CInt 9 else CNone)
         else CNone) \<rparr>"

definition demo_map :: colmap where
  "demo_map = get_header_map ascii_rt demo_ws"

definition demo_row :: "nat \<Rightarrow> string \<Rightarrow> real \<Rightarrow> real \<Rightarrow> head \<Rightarrow> real \<Rightarrow> invoice" where
  "demo_row r g ig cg h a =
     \<lparr> row_idx = r, gstin = lit g, igst = ig, cgst = cg, sgst = 0, party = [], head = h,
       amount = a, source = lit ''Books'', match_id = None, match_type = None,
       matched_with_row = None \<rparr>"

definition demo_data :: rowdata where
  "demo_data = row_data demo_ws demo_map 2"

text \<open>
  A record as the matcher leaves it, and the three cells that \<open>write_results\<close> adds to a row.
\<close>

definition settled :: "invoice \<Rightarrow> bool" where
  "settled v = (unmatched v \<or> (claimed v \<and> tagged v \<and> matched_with_row v \<noteq> None))"

definition annotation :: "worksheet \<Rightarrow> nat \<Rightarrow> nat \<Rightarrow> cell \<times> cell \<times> cell" where
  "annotation ws max_col r = (cells ws r (max_col + 1), cells ws r (max_col + 2), cells ws r (max_col + 3))"

definition demo_inv2 :: invoice where
  "demo_inv2 = (demo_row 2 ''G1'' (- 50) 0 IGST (- 50))
     \<lparr> match_id := Some 1, match_type := Some PERFECT_MATCH, matched_with_row := Some 2 \<rparr>"

definition demo_inv4 :: invoice where
  "demo_inv4 = demo_row 4 ''G3'' 0 9 CGST_SGST 9"

definition demo_out :: worksheet where
  "demo_out = write_results demo_ws [demo_inv2, demo_inv4] (lit ''Books'') (lit ''2B'')"

text \<open>
  A workbook with a valid configuration and one integer cell beyond the range of a float;
  \<open>float_safe\<close> holds of every other kind of cell.
\<close>

definition huge :: int where
  "huge = 10 ^ 400"

definition overflow_sheet :: worksheet where
  "overflow_sheet =
     \<lparr> max_row = 2, max_column = 2,
       cells = (\<lambda>r c.
         if r = 1 then (if c = 1 then CStr (lit ''GSTIN'') else if c = 2 then CStr (lit ''IGST'') else CNone)
         else if r = 2 then (if c = 1 then CStr (lit ''G1'') else if c = 2 then CInt huge else CNone)
         else CNone) \<rparr>"

definition plain_sheet :: worksheet where
  "plain_sheet =
     \<lparr> max_row = 2, max_column = 2,
       cells = (\<lambda>r c.
         if r = 1 then (if c = 1 then CStr (lit ''GSTIN'') else if c = 2 then CStr (lit ''IGST'') else CNone)
         else if r = 2 then (if c = 1 then CStr (lit ''G1'') else if c = 2 then CInt 100 else CNone)
         else CNone) \<rparr>"

definition overflow_wb :: workbook where
  "overflow_wb =
     \<lparr> sheetnames = [lit ''Books'', lit ''2B''],
       sheet = (\<lambda>n. if n = lit ''Books'' then overflow_sheet else plain_sheet) \<rparr>"

definition float_safe :: "cell \<Rightarrow> bool" where
  "float_safe v = (case v of CInt i \<Rightarrow> \<bar>i\<bar> < 2 ^ 1024 - 2 ^ 970 | _ \<Rightarrow> True)"

section \<open>Properties\<close>

lemma first_best_snoc_keep:
  assumes "first_best tolerance a l2 cs j"
    and "eligible tolerance a l2 x \<Longrightarrow> diff_of a l2 j \<le> diff_of a l2 x"
  shows "first_best tolerance a l2 (cs @ [x]) j"
proof -
  from assms(1) obtain pre post where
    *: "eligible tolerance a l2 j" "cs = pre @ j # post"
       "\<forall>k\<in>set pre. eligible tolerance a l2 k \<longrightarrow> diff_of a l2 j < diff_of a l2 k"
       "\<forall>k\<in>set post. eligible tolerance a l2 k \<longrightarrow> diff_of a l2 j \<le> diff_of a l2 k"
    unfolding first_best_def by blast
  have 1: "cs @ [x] = pre @ j # (post @ [x])" using *(2) by simp
  have 2: "\<forall>k\<in>set (post @ [x]). eligible tolerance a l2 k \<longrightarrow> diff_of a l2 j \<le> diff_of a l2 k"
    using *(4) assms(2) by simp
  show ?thesis unfolding first_best_def using *(1) *(3) 1 2 by blast
qed

lemma first_best_snoc_new:
  assumes "eligible tolerance a l2 x"
    and "\<forall>k\<in>set cs. eligible tolerance a l2 k \<longrightarrow> diff_of a l2 x < diff_of a l2 k"
  shows "first_best tolerance a l2 (cs @ [x]) x"
proof -
  have 1: "cs @ [x] = cs @ x # []" by simp
  have 2: "\<forall>k\<in>set []. eligible tolerance a l2 k \<longrightarrow> diff_of a l2 x \<le> diff_of a l2 k" by simp
  show ?thesis unfolding first_best_def using assms 1 2 by blast
qed

lemma first_best_minimal:
  assumes "first_best tolerance a l2 cs j" "k \<in> set cs" "eligible tolerance a l2 k"
  shows "diff_of a l2 j \<le> diff_of a l2 k"
  using assms unfolding first_best_def by fastforce

lemma scan_step_result:
  assumes "scan_result tolerance a l2 cs r"
  shows "scan_result tolerance a l2 (cs @ [x]) (scan_step tolerance a l2 r x)"
proof (cases r)
  case None
  show ?thesis
  proof (cases "eligible tolerance a l2 x")
    case True
    then have "scan_step tolerance a l2 None x = Some (x, diff_of a l2 x)"
      by (simp add: scan_step_def eligible_def diff_of_def)
    moreover have "first_best tolerance a l2 (cs @ [x]) x"
      using assms None True by (intro first_best_snoc_new) (simp_all add: scan_result_def)
    ultimately show ?thesis by (simp add: None scan_result_def)
  next
    case False
    then have "scan_step tolerance a l2 None x = None"
      by (auto simp: scan_step_def eligible_def diff_of_def)
    then show ?thesis using assms None False by (simp add: scan_result_def)
  qed
next
  case (Some p)
  obtain j d where p: "p = (j, d)" by (cases p)
  from assms Some p have d: "d = diff_of a l2 j" and fb: "first_best tolerance a l2 cs j"
    by (simp_all add: scan_result_def)
  show ?thesis
  proof (cases "eligible tolerance a l2 x \<and> diff_of a l2 x < d")
    case True
    then have "scan_step tolerance a l2 (Some (j, d)) x = Some (x, diff_of a l2 x)"
      by (simp add: scan_step_def eligible_def diff_of_def)
    moreover have "first_best tolerance a l2 (cs @ [x]) x"
    proof (intro first_best_snoc_new)
      show "eligible tolerance a l2 x" using True by simp
      show "\<forall>k\<in>set cs. eligible tolerance a l2 k \<longrightarrow> diff_of a l2 x < diff_of a l2 k"
        using first_best_minimal[OF fb] True d by fastforce
    qed
    ultimately show ?thesis by (simp add: Some p scan_result_def)
  next
    case False
    then have "scan_step tolerance a l2 (Some (j, d)) x = Some (j, d)"
      by (auto simp: scan_step_def eligible_def diff_of_def)
    moreover have "first_best tolerance a l2 (cs @ [x]) j"
      using fb False d by (intro first_best_snoc_keep) auto
    ultimately show ?thesis by (simp add: Some p scan_result_def d)
  qed
qed

lemma foldl_scan_result:
  "scan_result tolerance a l2 cs (foldl (scan_step tolerance a l2) None cs)"
proof (induction cs rule: rev_induct)
  case Nil
  show ?case by (simp add: scan_result_def)
next
  case (snoc x xs)
  then show ?case by (simp add: scan_step_result)
qed

lemma best_candidate_None:
  "best_candidate tolerance a l2 cs = None \<longleftrightarrow> (\<forall>j\<in>set cs. \<not> eligible tolerance a l2 j)"
proof -
  have "scan_result tolerance a l2 cs (foldl (scan_step tolerance a l2) None cs)"
    by (rule foldl_scan_result)
  then show ?thesis
    unfolding best_candidate_def scan_result_def first_best_def
    by (cases "foldl (scan_step tolerance a l2) None cs") auto
qed

lemma best_candidate_Some:
  "best_candidate tolerance a l2 cs = Some j \<Longrightarrow> first_best tolerance a l2 cs j"
  using foldl_scan_result[of tolerance a l2 cs]
  unfolding best_candidate_def scan_result_def
  by (cases "foldl (scan_step tolerance a l2) None cs") auto

lemma first_best_mem: "first_best tolerance a l2 cs j \<Longrightarrow> j \<in> set cs"
  unfolding first_best_def by auto

lemma first_best_eligible: "first_best tolerance a l2 cs j \<Longrightarrow> eligible tolerance a l2 j"
  unfolding first_best_def by auto

lemma same_data_refl: "same_data r r"
  by (simp add: same_data_def)

lemma same_data_trans: "same_data r r' \<Longrightarrow> same_data r' r'' \<Longrightarrow> same_data r r''"
  by (simp add: same_data_def)

lemma keeps_refl: "keeps l l"
  by (simp add: keeps_def same_data_refl)

lemma keeps_trans:
  assumes "keeps l l'" "keeps l' l''"
  shows "keeps l l''"
  unfolding keeps_def
proof (intro conjI allI impI)
  show "length l'' = length l" using assms by (simp add: keeps_def)
next
  fix k assume "k < length l"
  with assms show "same_data (l ! k) (l'' ! k)"
    unfolding keeps_def using same_data_trans by metis
next
  fix k assume k: "k < length l" and c: "claimed (l ! k)"
  from assms(1) k c have 1: "l' ! k = l ! k" by (simp add: keeps_def)
  from assms k have "claimed (l' ! k) \<longrightarrow> l'' ! k = l' ! k" by (simp add: keeps_def)
  with 1 c show "l'' ! k = l ! k" by simp
qed

lemma keeps_update:
  assumes "\<not> claimed (l ! k)" "same_data (l ! k) r"
  shows "keeps l (l[k := r])"
proof (cases "k < length l")
  case True
  with assms show ?thesis by (auto simp: keeps_def nth_list_update same_data_refl)
next
  case False
  then have "l[k := r] = l" by (simp add: list_update_beyond)
  then show ?thesis by (simp add: keeps_refl)
qed

lemma evolves_refl: "evolves s s"
  by (simp add: evolves_def keeps_refl)

lemma evolves_trans: "evolves s s' \<Longrightarrow> evolves s' s'' \<Longrightarrow> evolves s s''"
  unfolding evolves_def using keeps_trans by fastforce

lemma link_evolves:
  assumes "\<not> claimed (list1 s ! i)" "\<not> claimed (list2 s ! j)"
  shows "evolves s (link desc i j s)"
  unfolding evolves_def link_def Let_def
  using assms by (auto intro!: keeps_update simp: same_data_def)

lemma foldl_evolves:
  assumes "\<And>s i. evolves s (f s i)"
  shows "evolves s (foldl f s js)"
proof (induction js arbitrary: s)
  case Nil
  show ?case by (simp add: evolves_refl)
next
  case (Cons j js)
  have "evolves s (f s j)" by (rule assms)
  moreover have "evolves (f s j) (foldl f (f s j) js)" by (rule Cons.IH)
  ultimately show ?case using evolves_trans by simp
qed

lemma scan_sorted_sound:
  "scan_sorted tolerance a l2 js best = Some (j, d) \<Longrightarrow>
     best = Some (j, d) \<or> (j \<in> set js \<and> \<not> claimed (l2 ! j) \<and> \<bar>amount (l2 ! j) - a\<bar> \<le> tolerance)"
proof (induction js arbitrary: best)
  case Nil
  then show ?case by simp
next
  case (Cons k js)
  show ?case
  proof (cases "\<bar>amount (l2 ! k) - a\<bar> > tolerance")
    case True
    with Cons.prems show ?thesis by simp
  next
    case le: False
    show ?thesis
    proof (cases "claimed (l2 ! k)")
      case True
      with le Cons.prems have "scan_sorted tolerance a l2 js best = Some (j, d)" by simp
      from Cons.IH[OF this] show ?thesis by auto
    next
      case False
      show ?thesis
      proof (cases "case best of None \<Rightarrow> True | Some (_, best_diff) \<Rightarrow> \<bar>amount (l2 ! k) - a\<bar> < best_diff")
        case True
        with le False Cons.prems
        have "scan_sorted tolerance a l2 js (Some (k, \<bar>amount (l2 ! k) - a\<bar>)) = Some (j, d)"
          by (simp add: Let_def)
        from Cons.IH[OF this] le False show ?thesis by auto
      next
        case nb: False
        with le False Cons.prems have "scan_sorted tolerance a l2 js best = Some (j, d)"
          by (simp add: Let_def)
        from Cons.IH[OF this] show ?thesis by auto
      qed
    qed
  qed
qed

lemma phase3_choice_unclaimed:
  assumes "phase3_choice tolerance smap amap s i = Some j"
  shows "\<not> claimed (list2 s ! j)"
proof -
  let ?a = "amount (list1 s ! i)"
  let ?cs = "smap (head (list1 s ! i))"
  let ?idx = "bisect_left (amap (head (list1 s ! i))) ?a"
  let ?r = "scan_sorted tolerance ?a (list2 s) (drop ?idx ?cs) None"
  from assms obtain d where
    d: "scan_sorted tolerance ?a (list2 s) (rev (take ?idx ?cs)) ?r = Some (j, d)"
    by (auto simp: phase3_choice_def Let_def split: if_splits)
  from scan_sorted_sound[OF d] show ?thesis
  proof
    assume "?r = Some (j, d)"
    from scan_sorted_sound[OF this] show ?thesis by simp
  next
    assume "j \<in> set (rev (take ?idx ?cs)) \<and> \<not> claimed (list2 s ! j) \<and> \<bar>amount (list2 s ! j) - ?a\<bar> \<le> tolerance"
    then show ?thesis by simp
  qed
qed

lemma best_candidate_unclaimed:
  "best_candidate tolerance a l2 cs = Some j \<Longrightarrow> \<not> claimed (l2 ! j)"
  using best_candidate_Some first_best_eligible eligible_def by blast

lemma phase1_iter_evolves: "evolves s (phase1_iter tolerance m s i)"
  unfolding phase1_iter_def phase1_choice_def Let_def
  by (auto simp: evolves_refl split: option.split intro!: link_evolves dest: best_candidate_unclaimed)

lemma phase2a_iter_evolves: "evolves s (phase2a_iter tolerance n m s i)"
  unfolding phase2a_iter_def phase2_choice_def Let_def
  by (auto simp: evolves_refl split: option.split intro!: link_evolves dest: best_candidate_unclaimed)

lemma phase2b_iter_evolves: "evolves s (phase2b_iter tolerance n m s i)"
  unfolding phase2b_iter_def phase2_choice_def Let_def
  by (auto simp: evolves_refl split: option.split intro!: link_evolves dest: best_candidate_unclaimed)

lemma phase3_iter_evolves: "evolves s (phase3_iter tolerance sm am s i)"
  unfolding phase3_iter_def
  by (auto simp: evolves_refl split: option.split intro!: link_evolves dest: phase3_choice_unclaimed)

lemma consistent_unclaimed1:
  "consistent tolerance s \<Longrightarrow> i < length (list1 s) \<Longrightarrow> \<not> claimed (list1 s ! i) \<Longrightarrow> unmatched (list1 s ! i)"
  unfolding consistent_def paired_def claimed_def by (auto split: option.splits)

lemma consistent_unclaimed2:
  "consistent tolerance s \<Longrightarrow> j < length (list2 s) \<Longrightarrow> \<not> claimed (list2 s ! j) \<Longrightarrow> unmatched (list2 s ! j)"
  unfolding consistent_def paired_def claimed_def by (auto split: option.splits)

lemma consistent_id_bound1:
  "consistent tolerance s \<Longrightarrow> i < length (list1 s) \<Longrightarrow> match_id (list1 s ! i) = Some m \<Longrightarrow> 0 < m \<and> m < match_counter s"
  unfolding consistent_def paired_def unmatched_def by fastforce

lemma consistent_id_bound2:
  "consistent tolerance s \<Longrightarrow> j < length (list2 s) \<Longrightarrow> match_id (list2 s ! j) = Some m \<Longrightarrow> 0 < m \<and> m < match_counter s"
  unfolding consistent_def paired_def unmatched_def by fastforce

lemma paired_link_other:
  assumes "paired tolerance s i' j' m" "i' \<noteq> i" "j' \<noteq> j"
  shows "paired tolerance (link desc i j s) i' j' m"
  using assms unfolding paired_def link_def Let_def by (auto simp: nth_list_update)

lemma paired_link_new:
  assumes "i < length (list1 s)" "j < length (list2 s)" "desc \<noteq> []"
    "\<bar>amount (list1 s ! i) - amount (list2 s ! j)\<bar> \<le> tolerance"
  shows "paired tolerance (link desc i j s) i j (match_counter s)"
  using assms unfolding paired_def link_def Let_def tagged_def by simp

lemma link_consistent:
  assumes c: "consistent tolerance s"
    and i: "i < length (list1 s)" and j: "j < length (list2 s)"
    and ui: "unmatched (list1 s ! i)" and uj: "unmatched (list2 s ! j)"
    and desc: "desc \<noteq> []"
    and tol: "\<bar>amount (list1 s ! i) - amount (list2 s ! j)\<bar> \<le> tolerance"
  shows "consistent tolerance (link desc i j s)"
proof -
  let ?s = "link desc i j s"
  let ?c = "match_counter s"
  have len: "length (list1 ?s) = length (list1 s)" "length (list2 ?s) = length (list2 s)"
    and cnt: "match_counter ?s = Suc ?c"
    by (simp_all add: link_def Let_def)
  have c1: "1 \<le> ?c" using c by (simp add: consistent_def)
  have new: "paired tolerance ?s i j ?c" by (rule paired_link_new[OF i j desc tol])
  have id1: "match_id (list1 ?s ! k) = (if k = i then Some ?c else match_id (list1 s ! k))"
    if "k < length (list1 s)" for k
    using that i by (simp add: link_def Let_def nth_list_update)
  have id2: "match_id (list2 ?s ! k) = (if k = j then Some ?c else match_id (list2 s ! k))"
    if "k < length (list2 s)" for k
    using that j by (simp add: link_def Let_def nth_list_update)
  have oth1: "list1 ?s ! k = list1 s ! k" if "k \<noteq> i" for k
    using that by (simp add: link_def Let_def)
  have oth2: "list2 ?s ! k = list2 s ! k" if "k \<noteq> j" for k
    using that by (simp add: link_def Let_def)
  have old: "paired tolerance ?s i' j' m" if "paired tolerance s i' j' m" for i' j' m
  proof -
    from that ui have "i' \<noteq> i" by (auto simp: paired_def unmatched_def)
    moreover from that uj have "j' \<noteq> j" by (auto simp: paired_def unmatched_def)
    ultimately show ?thesis using that by (intro paired_link_other)
  qed
  have p1: "unmatched (list1 ?s ! k) \<or> (\<exists>m j'. 0 < m \<and> m < Suc ?c \<and> paired tolerance ?s k j' m)"
    if k: "k < length (list1 s)" for k
  proof (cases "k = i")
    case True
    from new c1 have "0 < ?c \<and> ?c < Suc ?c \<and> paired tolerance ?s k j ?c"
      using True by simp
    then show ?thesis by blast
  next
    case False
    from c k have "unmatched (list1 s ! k) \<or> (\<exists>m j'. 0 < m \<and> m < ?c \<and> paired tolerance s k j' m)"
      unfolding consistent_def by blast
    then show ?thesis
    proof
      assume "unmatched (list1 s ! k)"
      then show ?thesis by (simp add: oth1[OF False])
    next
      assume "\<exists>m j'. 0 < m \<and> m < ?c \<and> paired tolerance s k j' m"
      then obtain m j' where m: "0 < m" "m < ?c" "paired tolerance s k j' m" by blast
      from m(2) have "m < Suc ?c" by simp
      with m(1) old[OF m(3)] show ?thesis by blast
    qed
  qed
  have p2: "unmatched (list2 ?s ! k) \<or> (\<exists>m i'. 0 < m \<and> m < Suc ?c \<and> paired tolerance ?s i' k m)"
    if k: "k < length (list2 s)" for k
  proof (cases "k = j")
    case True
    from new c1 have "0 < ?c \<and> ?c < Suc ?c \<and> paired tolerance ?s i k ?c"
      using True by simp
    then show ?thesis by blast
  next
    case False
    from c k have "unmatched (list2 s ! k) \<or> (\<exists>m i'. 0 < m \<and> m < ?c \<and> paired tolerance s i' k m)"
      unfolding consistent_def by blast
    then show ?thesis
    proof
      assume "unmatched (list2 s ! k)"
      then show ?thesis by (simp add: oth2[OF False])
    next
      assume "\<exists>m i'. 0 < m \<and> m < ?c \<and> paired tolerance s i' k m"
      then obtain m i' where m: "0 < m" "m < ?c" "paired tolerance s i' k m" by blast
      from m(2) have "m < Suc ?c" by simp
      with m(1) old[OF m(3)] show ?thesis by blast
    qed
  qed
  have u1: "k = k'"
    if "k < length (list1 s)" "k' < length (list1 s)" "match_id (list1 ?s ! k) \<noteq> None"
      "match_id (list1 ?s ! k) = match_id (list1 ?s ! k')" for k k'
  proof -
    have inj: "\<forall>a<length (list1 s). \<forall>b<length (list1 s).
        match_id (list1 s ! a) \<noteq> None \<and> match_id (list1 s ! a) = match_id (list1 s ! b) \<longrightarrow> a = b"
      using c unfolding consistent_def by blast
    have bnd: "match_id (list1 s ! a) \<noteq> Some ?c" if "a < length (list1 s)" for a
      using consistent_id_bound1[OF c that] by fastforce
    from that(3,4) have e: "match_id (list1 ?s ! k') = match_id (list1 ?s ! k)" by simp
    show ?thesis
    proof (cases "k = i")
      case True
      show ?thesis
      proof (rule ccontr)
        assume ne: "k \<noteq> k'"
        have a: "match_id (list1 ?s ! k) = Some ?c" using True id1[OF that(1)] by simp
        have b: "match_id (list1 ?s ! k') = match_id (list1 s ! k')"
          using ne True id1[OF that(2)] by simp
        from a b e have "match_id (list1 s ! k') = Some ?c" by simp
        with bnd[OF that(2)] show False by simp
      qed
    next
      case False
      then have k: "match_id (list1 ?s ! k) = match_id (list1 s ! k)" by (simp add: id1[OF that(1)])
      have "k' \<noteq> i"
      proof
        assume "k' = i"
        then have "match_id (list1 ?s ! k') = Some ?c" using id1[OF that(2)] by simp
        with e k have "match_id (list1 s ! k) = Some ?c" by simp
        with bnd[OF that(1)] show False by simp
      qed
      then have "match_id (list1 ?s ! k') = match_id (list1 s ! k')" by (simp add: id1[OF that(2)])
      with k e that(3) have "match_id (list1 s ! k) \<noteq> None \<and> match_id (list1 s ! k) = match_id (list1 s ! k')"
        by simp
      with inj that(1,2) show ?thesis by blast
    qed
  qed
  have u2: "k = k'"
    if "k < length (list2 s)" "k' < length (list2 s)" "match_id (list2 ?s ! k) \<noteq> None"
      "match_id (list2 ?s ! k) = match_id (list2 ?s ! k')" for k k'
  proof -
    have inj: "\<forall>a<length (list2 s). \<forall>b<length (list2 s).
        match_id (list2 s ! a) \<noteq> None \<and> match_id (list2 s ! a) = match_id (list2 s ! b) \<longrightarrow> a = b"
      using c unfolding consistent_def by blast
    have bnd: "match_id (list2 s ! a) \<noteq> Some ?c" if "a < length (list2 s)" for a
      using consistent_id_bound2[OF c that] by fastforce
    from that(3,4) have e: "match_id (list2 ?s ! k') = match_id (list2 ?s ! k)" by simp
    show ?thesis
    proof (cases "k = j")
      case True
      show ?thesis
      proof (rule ccontr)
        assume ne: "k \<noteq> k'"
        have a: "match_id (list2 ?s ! k) = Some ?c" using True id2[OF that(1)] by simp
        have b: "match_id (list2 ?s ! k') = match_id (list2 s ! k')"
          using ne True id2[OF that(2)] by simp
        from a b e have "match_id (list2 s ! k') = Some ?c" by simp
        with bnd[OF that(2)] show False by simp
      qed
    next
      case False
      then have k: "match_id (list2 ?s ! k) = match_id (list2 s ! k)" by (simp add: id2[OF that(1)])
      have "k' \<noteq> j"
      proof
        assume "k' = j"
        then have "match_id (list2 ?s ! k') = Some ?c" using id2[OF that(2)] by simp
        with e k have "match_id (list2 s ! k) = Some ?c" by simp
        with bnd[OF that(1)] show False by simp
      qed
      then have "match_id (list2 ?s ! k') = match_id (list2 s ! k')" by (simp add: id2[OF that(2)])
      with k e that(3) have "match_id (list2 s ! k) \<noteq> None \<and> match_id (list2 s ! k) = match_id (list2 s ! k')"
        by simp
      with inj that(1,2) show ?thesis by blast
    qed
  qed
  have all: "\<exists>i' j'. paired tolerance ?s i' j' m" if "0 < m" "m < Suc ?c" for m
  proof (cases "m = ?c")
    case True
    with new show ?thesis by blast
  next
    case False
    with that have "m < ?c" by simp
    with c that(1) obtain i' j' where "paired tolerance s i' j' m"
      unfolding consistent_def by blast
    from old[OF this] show ?thesis by blast
  qed
  show ?thesis
    unfolding consistent_def len cnt
  proof (intro conjI allI impI)
    show "1 \<le> Suc ?c" by simp
  next
    fix k assume "k < length (list1 s)"
    then show "unmatched (list1 ?s ! k) \<or> (\<exists>m j'. 0 < m \<and> m < Suc ?c \<and> paired tolerance ?s k j' m)"
      by (rule p1)
  next
    fix k assume "k < length (list2 s)"
    then show "unmatched (list2 ?s ! k) \<or> (\<exists>m i'. 0 < m \<and> m < Suc ?c \<and> paired tolerance ?s i' k m)"
      by (rule p2)
  next
    fix k k' assume "k < length (list1 s)" "k' < length (list1 s)"
      "match_id (list1 ?s ! k) \<noteq> None \<and> match_id (list1 ?s ! k) = match_id (list1 ?s ! k')"
    then show "k = k'" using u1 by blast
  next
    fix k k' assume "k < length (list2 s)" "k' < length (list2 s)"
      "match_id (list2 ?s ! k) \<noteq> None \<and> match_id (list2 ?s ! k) = match_id (list2 ?s ! k')"
    then show "k = k'" using u2 by blast
  next
    fix m assume "0 < m \<and> m < Suc ?c"
    then show "\<exists>i' j'. paired tolerance ?s i' j' m" using all by blast
  qed
qed

lemma foldl_preserves:
  assumes "P s" and "\<And>s i. P s \<Longrightarrow> i \<in> set js \<Longrightarrow> P (f s i)"
  shows "P (foldl f s js)"
  using assms by (induction js arbitrary: s) simp_all

lemma evolves_length1: "evolves s s' \<Longrightarrow> length (list1 s') = length (list1 s)"
  by (simp add: evolves_def keeps_def)

lemma evolves_length2: "evolves s s' \<Longrightarrow> length (list2 s') = length (list2 s)"
  by (simp add: evolves_def keeps_def)

lemma index_by_range: "j \<in> set (index_by key keep l2 k) \<Longrightarrow> j < length l2"
  by (simp add: index_by_def)

lemma sorted_candidates_range: "j \<in> set (sorted_candidates_map l2 h) \<Longrightarrow> j < length l2"
  by (auto simp: sorted_candidates_map_def dest: index_by_range)

lemma PERFECT_MATCH_nonempty: "PERFECT_MATCH \<noteq> []"
  by (simp add: PERFECT_MATCH_def lit_def)

lemma MISSING_GSTIN_IN_nonempty: "MISSING_GSTIN_IN name \<noteq> []"
  by (simp add: MISSING_GSTIN_IN_def lit_def)

lemma match_desc_nonempty: "match_desc a b \<noteq> []"
  by (simp add: match_desc_def PROBABLE_MATCH_def MATCH_NO_GSTINS_def lit_def)

lemma phase3_choice_sound:
  assumes "phase3_choice tolerance smap amap s i = Some j"
  shows "j \<in> set (smap (head (list1 s ! i))) \<and> eligible tolerance (amount (list1 s ! i)) (list2 s) j"
proof -
  let ?a = "amount (list1 s ! i)"
  let ?cs = "smap (head (list1 s ! i))"
  let ?idx = "bisect_left (amap (head (list1 s ! i))) ?a"
  let ?r = "scan_sorted tolerance ?a (list2 s) (drop ?idx ?cs) None"
  from assms obtain d where
    d: "scan_sorted tolerance ?a (list2 s) (rev (take ?idx ?cs)) ?r = Some (j, d)"
    by (auto simp: phase3_choice_def Let_def split: if_splits)
  have "j \<in> set ?cs \<and> \<not> claimed (list2 s ! j) \<and> \<bar>amount (list2 s ! j) - ?a\<bar> \<le> tolerance"
    using scan_sorted_sound[OF d]
  proof
    assume "?r = Some (j, d)"
    from scan_sorted_sound[OF this] show ?thesis by (auto dest: in_set_dropD)
  next
    assume "j \<in> set (rev (take ?idx ?cs)) \<and> \<not> claimed (list2 s ! j) \<and> \<bar>amount (list2 s ! j) - ?a\<bar> \<le> tolerance"
    then show ?thesis by (auto dest: in_set_takeD)
  qed
  then show ?thesis by (simp add: eligible_def diff_of_def abs_minus_commute)
qed

lemma link_choice_consistent:
  assumes c: "consistent tolerance s" and i: "i < length (list1 s)" and j: "j < length (list2 s)"
    and ui: "\<not> claimed (list1 s ! i)" and e: "eligible tolerance (amount (list1 s ! i)) (list2 s) j"
    and desc: "desc \<noteq> []"
  shows "consistent tolerance (link desc i j s)"
proof (rule link_consistent[OF c i j _ _ desc])
  show "unmatched (list1 s ! i)" by (rule consistent_unclaimed1[OF c i ui])
  show "unmatched (list2 s ! j)" using e by (intro consistent_unclaimed2[OF c j]) (simp add: eligible_def)
  show "\<bar>amount (list1 s ! i) - amount (list2 s ! j)\<bar> \<le> tolerance"
    using e by (simp add: eligible_def diff_of_def)
qed

lemma phase1_iter_consistent:
  assumes "consistent tolerance s" "i < length (list1 s)" "\<forall>k. \<forall>j\<in>set (m k). j < length (list2 s)"
  shows "consistent tolerance (phase1_iter tolerance m s i)"
proof (cases "claimed (list1 s ! i)")
  case True
  with assms(1) show ?thesis by (simp add: phase1_iter_def)
next
  case False
  show ?thesis
  proof (cases "phase1_choice tolerance m s i")
    case None
    with False assms(1) show ?thesis by (simp add: phase1_iter_def)
  next
    case (Some j)
    then have fb: "first_best tolerance (amount (list1 s ! i)) (list2 s) (m (gstin (list1 s ! i), head (list1 s ! i))) j"
      by (simp add: phase1_choice_def Let_def best_candidate_Some)
    have "consistent tolerance (link PERFECT_MATCH i j s)"
      using assms first_best_mem[OF fb] first_best_eligible[OF fb] False
      by (intro link_choice_consistent PERFECT_MATCH_nonempty) auto
    with False Some show ?thesis by (simp add: phase1_iter_def)
  qed
qed

lemma phase2a_iter_consistent:
  assumes "consistent tolerance s" "i < length (list1 s)" "\<forall>k. \<forall>j\<in>set (m k). j < length (list2 s)"
  shows "consistent tolerance (phase2a_iter tolerance n m s i)"
proof (cases "claimed (list1 s ! i) \<or> gstin (list1 s ! i) = []")
  case True
  with assms(1) show ?thesis by (auto simp add: phase2a_iter_def)
next
  case False
  show ?thesis
  proof (cases "phase2_choice tolerance m s i")
    case None
    with False assms(1) show ?thesis by (simp add: phase2a_iter_def)
  next
    case (Some j)
    then have fb: "first_best tolerance (amount (list1 s ! i)) (list2 s) (m (head (list1 s ! i))) j"
      by (simp add: phase2_choice_def Let_def best_candidate_Some)
    have "consistent tolerance (link (MISSING_GSTIN_IN n) i j s)"
      using assms first_best_mem[OF fb] first_best_eligible[OF fb] False
      by (intro link_choice_consistent MISSING_GSTIN_IN_nonempty) auto
    with False Some show ?thesis by (simp add: phase2a_iter_def)
  qed
qed

lemma phase2b_iter_consistent:
  assumes "consistent tolerance s" "i < length (list1 s)" "\<forall>k. \<forall>j\<in>set (m k). j < length (list2 s)"
  shows "consistent tolerance (phase2b_iter tolerance n m s i)"
proof (cases "claimed (list1 s ! i) \<or> gstin (list1 s ! i) \<noteq> []")
  case True
  with assms(1) show ?thesis by (auto simp add: phase2b_iter_def)
next
  case False
  show ?thesis
  proof (cases "phase2_choice tolerance m s i")
    case None
    with False assms(1) show ?thesis by (simp add: phase2b_iter_def)
  next
    case (Some j)
    then have fb: "first_best tolerance (amount (list1 s ! i)) (list2 s) (m (head (list1 s ! i))) j"
      by (simp add: phase2_choice_def Let_def best_candidate_Some)
    have "consistent tolerance (link (MISSING_GSTIN_IN n) i j s)"
      using assms first_best_mem[OF fb] first_best_eligible[OF fb] False
      by (intro link_choice_consistent MISSING_GSTIN_IN_nonempty) auto
    with False Some show ?thesis by (simp add: phase2b_iter_def)
  qed
qed

lemma phase3_iter_consistent:
  assumes "consistent tolerance s" "i < length (list1 s)" "\<forall>k. \<forall>j\<in>set (sm k). j < length (list2 s)"
  shows "consistent tolerance (phase3_iter tolerance sm am s i)"
proof (cases "claimed (list1 s ! i)")
  case True
  with assms(1) show ?thesis by (simp add: phase3_iter_def)
next
  case False
  show ?thesis
  proof (cases "phase3_choice tolerance sm am s i")
    case None
    with False assms(1) show ?thesis by (simp add: phase3_iter_def)
  next
    case (Some j)
    note snd = phase3_choice_sound[OF Some]
    have "consistent tolerance (link (match_desc (list1 s ! i) (list2 s ! j)) i j s)"
      using assms snd False
      by (intro link_choice_consistent match_desc_nonempty) auto
    with False Some show ?thesis by (simp add: phase3_iter_def)
  qed
qed

lemma phase1_consistent: "consistent tolerance s \<Longrightarrow> consistent tolerance (phase1 tolerance s)"
proof -
  assume c: "consistent tolerance s"
  let ?m = "phase1_map (list2 s)"
  have "shaped tolerance (length (list1 s)) (length (list2 s))
          (foldl (phase1_iter tolerance ?m) s [0..<length (list1 s)])"
  proof (rule foldl_preserves)
    show "shaped tolerance (length (list1 s)) (length (list2 s)) s" using c by (simp add: shaped_def)
  next
    fix t i assume t: "shaped tolerance (length (list1 s)) (length (list2 s)) t"
      and i: "i \<in> set [0..<length (list1 s)]"
    have "consistent tolerance (phase1_iter tolerance ?m t i)"
      using t i by (intro phase1_iter_consistent) (auto simp: shaped_def phase1_map_def dest: index_by_range)
    moreover note phase1_iter_evolves[of t tolerance ?m i]
    ultimately show "shaped tolerance (length (list1 s)) (length (list2 s)) (phase1_iter tolerance ?m t i)"
      using t by (simp add: shaped_def evolves_length1 evolves_length2)
  qed
  then show ?thesis by (simp add: phase1_def shaped_def)
qed

lemma phase2a_consistent: "consistent tolerance s \<Longrightarrow> consistent tolerance (phase2a tolerance n s)"
proof -
  assume c: "consistent tolerance s"
  let ?m = "phase2a_map (list2 s)"
  have "shaped tolerance (length (list1 s)) (length (list2 s))
          (foldl (phase2a_iter tolerance n ?m) s [0..<length (list1 s)])"
  proof (rule foldl_preserves)
    show "shaped tolerance (length (list1 s)) (length (list2 s)) s" using c by (simp add: shaped_def)
  next
    fix t i assume t: "shaped tolerance (length (list1 s)) (length (list2 s)) t"
      and i: "i \<in> set [0..<length (list1 s)]"
    have "consistent tolerance (phase2a_iter tolerance n ?m t i)"
      using t i by (intro phase2a_iter_consistent) (auto simp: shaped_def phase2a_map_def dest: index_by_range)
    moreover note phase2a_iter_evolves[of t tolerance n ?m i]
    ultimately show "shaped tolerance (length (list1 s)) (length (list2 s)) (phase2a_iter tolerance n ?m t i)"
      using t by (simp add: shaped_def evolves_length1 evolves_length2)
  qed
  then show ?thesis by (simp add: phase2a_def shaped_def)
qed

lemma phase2b_consistent: "consistent tolerance s \<Longrightarrow> consistent tolerance (phase2b tolerance n s)"
proof -
  assume c: "consistent tolerance s"
  let ?m = "phase2b_map (list2 s)"
  have "shaped tolerance (length (list1 s)) (length (list2 s))
          (foldl (phase2b_iter tolerance n ?m) s [0..<length (list1 s)])"
  proof (rule foldl_preserves)
    show "shaped tolerance (length (list1 s)) (length (list2 s)) s" using c by (simp add: shaped_def)
  next
    fix t i assume t: "shaped tolerance (length (list1 s)) (length (list2 s)) t"
      and i: "i \<in> set [0..<length (list1 s)]"
    have "consistent tolerance (phase2b_iter tolerance n ?m t i)"
      using t i by (intro phase2b_iter_consistent) (auto simp: shaped_def phase2b_map_def dest: index_by_range)
    moreover note phase2b_iter_evolves[of t tolerance n ?m i]
    ultimately show "shaped tolerance (length (list1 s)) (length (list2 s)) (phase2b_iter tolerance n ?m t i)"
      using t by (simp add: shaped_def evolves_length1 evolves_length2)
  qed
  then show ?thesis by (simp add: phase2b_def shaped_def)
qed

lemma phase3_consistent: "consistent tolerance s \<Longrightarrow> consistent tolerance (phase3 tolerance s)"
proof -
  assume c: "consistent tolerance s"
  let ?sm = "sorted_candidates_map (list2 s)"
  let ?am = "candidates_amounts_map (list2 s)"
  have "shaped tolerance (length (list1 s)) (length (list2 s))
          (foldl (phase3_iter tolerance ?sm ?am) s [0..<length (list1 s)])"
  proof (rule foldl_preserves)
    show "shaped tolerance (length (list1 s)) (length (list2 s)) s" using c by (simp add: shaped_def)
  next
    fix t i assume t: "shaped tolerance (length (list1 s)) (length (list2 s)) t"
      and i: "i \<in> set [0..<length (list1 s)]"
    have "consistent tolerance (phase3_iter tolerance ?sm ?am t i)"
      using t i by (intro phase3_iter_consistent) (auto simp: shaped_def dest: sorted_candidates_range)
    moreover note phase3_iter_evolves[of t tolerance ?sm ?am i]
    ultimately show "shaped tolerance (length (list1 s)) (length (list2 s)) (phase3_iter tolerance ?sm ?am t i)"
      using t by (simp add: shaped_def evolves_length1 evolves_length2)
  qed
  then show ?thesis by (simp add: phase3_def shaped_def)
qed

lemma start_consistent:
  assumes "fresh l1" "fresh l2"
  shows "consistent tolerance (start l1 l2)"
  using assms unfolding consistent_def start_def fresh_def by (auto simp: unmatched_def list_all_length)

lemma match_invoices_consistent:
  assumes "fresh l1" "fresh l2"
  shows "consistent tolerance (match_invoices l1 l2 tolerance name1 name2)"
  unfolding match_invoices_def
  by (intro phase3_consistent phase2b_consistent phase2a_consistent phase1_consistent
      start_consistent assms)

lemma later_evolves: "later s t \<Longrightarrow> evolves s t"
proof (induction rule: later.induct)
  case (later_refl s)
  show ?case by (rule evolves_refl)
next
  case (later_phase1 s t tolerance m i)
  then show ?case using evolves_trans phase1_iter_evolves by blast
next
  case (later_phase2a s t tolerance name2 m i)
  then show ?case using evolves_trans phase2a_iter_evolves by blast
next
  case (later_phase2b s t tolerance name1 m i)
  then show ?case using evolves_trans phase2b_iter_evolves by blast
next
  case (later_phase3 s t tolerance sm am i)
  then show ?case using evolves_trans phase3_iter_evolves by blast
qed

lemma later_trans: "later t u \<Longrightarrow> later s t \<Longrightarrow> later s u"
  by (induction rule: later.induct) (auto intro: later.intros)

lemma later_foldl:
  assumes "\<And>t i. later s t \<Longrightarrow> later s (f t i)"
  shows "later s t \<Longrightarrow> later s (foldl f t js)"
  by (induction js arbitrary: t) (simp_all add: assms)

lemma later_phase1_run: "later s (phase1 tolerance s)"
  unfolding phase1_def by (intro later_foldl later_phase1 later_refl)

lemma later_phase2a_run: "later s (phase2a tolerance n s)"
  unfolding phase2a_def by (intro later_foldl later_phase2a later_refl)

lemma later_phase2b_run: "later s (phase2b tolerance n s)"
  unfolding phase2b_def by (intro later_foldl later_phase2b later_refl)

lemma later_phase3_run: "later s (phase3 tolerance s)"
  unfolding phase3_def by (intro later_foldl later_phase3 later_refl)

lemma later_match_invoices:
  "later (phase1 tolerance (start l1 l2)) (match_invoices l1 l2 tolerance name1 name2)"
  unfolding match_invoices_def
  by (meson later_trans later_phase2a_run later_phase2b_run later_phase3_run)

lemma later_start_match_invoices:
  "later (start l1 l2) (match_invoices l1 l2 tolerance name1 name2)"
  using later_match_invoices later_phase1_run later_trans by blast

lemma paired_unique2:
  assumes c: "consistent tolerance s" and p: "paired tolerance s i j' m"
    and j: "j < length (list2 s)" and m: "match_id (list2 s ! j) = Some m"
  shows "j' = j"
proof -
  from p have "j' < length (list2 s)" "match_id (list2 s ! j') = Some m" by (simp_all add: paired_def)
  with c j m show ?thesis unfolding consistent_def by (metis option.distinct(1))
qed

lemma paired_unique1:
  assumes c: "consistent tolerance s" and p: "paired tolerance s i' j m"
    and i: "i < length (list1 s)" and m: "match_id (list1 s ! i) = Some m"
  shows "i' = i"
proof -
  from p have "i' < length (list1 s)" "match_id (list1 s ! i') = Some m" by (simp_all add: paired_def)
  with c i m show ?thesis unfolding consistent_def by (metis option.distinct(1))
qed

lemma consistent_paired:
  assumes c: "consistent tolerance s"
    and i: "i < length (list1 s)" and j: "j < length (list2 s)"
    and mi: "match_id (list1 s ! i) = Some m" and mj: "match_id (list2 s ! j) = Some m"
  shows "paired tolerance s i j m"
proof -
  from c i mi obtain m' j' where p: "paired tolerance s i j' m'"
    unfolding consistent_def unmatched_def by fastforce
  with mi have "m' = m" by (simp add: paired_def)
  with p paired_unique2[OF c _ j mj] show ?thesis by blast
qed

text \<open>
  Claim C1 (tolerance bound). Start \<open>match_invoices\<close> on two lists of freshly built
  invoices. In the final state, whenever a record of the first list and a record of the
  second list carry the same \<open>match_id\<close> (they are a matched pair, whichever of the
  three phases linked them), the absolute difference of their amounts is at most the
  tolerance; the amounts are the ones the records had at the start. This holds for every
  tolerance, in particular for every non-negative one.
\<close>
theorem tolerance_bound:
  assumes "fresh l1" and "fresh l2"
    and "s = match_invoices l1 l2 tolerance name1 name2"
    and "i < length (list1 s)" and "j < length (list2 s)"
    and "match_id (list1 s ! i) = Some m" and "match_id (list2 s ! j) = Some m"
  shows "\<bar>amount (list1 s ! i) - amount (list2 s ! j)\<bar> \<le> tolerance \<and>
         amount (list1 s ! i) = amount (l1 ! i) \<and> amount (list2 s ! j) = amount (l2 ! j)"
proof -
  have c: "consistent tolerance s" unfolding assms(3) by (rule match_invoices_consistent[OF assms(1,2)])
  have "paired tolerance s i j m" by (rule consistent_paired[OF c assms(4-7)])
  then have 1: "\<bar>amount (list1 s ! i) - amount (list2 s ! j)\<bar> \<le> tolerance" by (simp add: paired_def)
  have e: "evolves (start l1 l2) s" unfolding assms(3) by (intro later_evolves later_start_match_invoices)
  then have "keeps l1 (list1 s)" "keeps l2 (list2 s)" by (simp_all add: evolves_def start_def)
  with assms(4,5) have "same_data (l1 ! i) (list1 s ! i)" "same_data (l2 ! j) (list2 s ! j)"
    by (simp_all add: keeps_def)
  with 1 show ?thesis by (simp add: same_data_def)
qed

lemma demo_run_eq:
  "demo_run =
     \<lparr> list1 = [demo_a\<lparr> match_id := Some 1, match_type := Some PERFECT_MATCH,
                    matched_with_row := Some 2 \<rparr>],
        list2 = [demo_b\<lparr> match_id := Some 1, match_type := Some PERFECT_MATCH,
                    matched_with_row := Some 2 \<rparr>],
        match_counter = 2 \<rparr>"
  by code_simp

theorem tolerance_bound_witness:
  "fresh [demo_a] \<and> fresh [demo_b] \<and>
   0 < length (list1 demo_run) \<and> 0 < length (list2 demo_run) \<and>
   match_id (list1 demo_run ! 0) = Some 1 \<and> match_id (list2 demo_run ! 0) = Some 1 \<and>
   \<bar>amount (list1 demo_run ! 0) - amount (list2 demo_run ! 0)\<bar> \<le> 1"
proof -
  have f: "fresh [demo_a]" "fresh [demo_b]"
    by (simp_all add: fresh_def unmatched_def demo_a_def demo_b_def mk_def)
  have g: "0 < length (list1 demo_run)" "0 < length (list2 demo_run)"
    "match_id (list1 demo_run ! 0) = Some 1" "match_id (list2 demo_run ! 0) = Some 1"
    by (simp_all add: demo_run_eq)
  have "\<bar>amount (list1 demo_run ! 0) - amount (list2 demo_run ! 0)\<bar> \<le> 1"
    using tolerance_bound[OF f demo_run_def g] by (rule conjunct1)
  with f g show ?thesis by simp
qed

text \<open>
  Claim C2 (symmetry, one identifier per pair). After \<open>match_invoices\<close> on freshly built
  invoices, every value \<open>m\<close> that occurs as the \<open>match_id\<close> of some record is positive and
  is held by exactly one record of the first list and exactly one record of the second
  list, that is by exactly two records, one from each list; these two records refer to
  each other: each one's \<open>matched_with_row\<close> is the other's \<open>row_idx\<close>, and their
  \<open>match_id\<close>s are equal.
\<close>
theorem match_symmetry:
  assumes "fresh l1" and "fresh l2"
    and "s = match_invoices l1 l2 tolerance name1 name2"
    and "(\<exists>i<length (list1 s). match_id (list1 s ! i) = Some m) \<or>
         (\<exists>j<length (list2 s). match_id (list2 s ! j) = Some m)"
  shows "0 < m \<and>
         (\<exists>!i. i < length (list1 s) \<and> match_id (list1 s ! i) = Some m) \<and>
         (\<exists>!j. j < length (list2 s) \<and> match_id (list2 s ! j) = Some m) \<and>
         (\<forall>i j. i < length (list1 s) \<and> match_id (list1 s ! i) = Some m \<and>
                j < length (list2 s) \<and> match_id (list2 s ! j) = Some m \<longrightarrow>
            matched_with_row (list1 s ! i) = Some (row_idx (list2 s ! j)) \<and>
            matched_with_row (list2 s ! j) = Some (row_idx (list1 s ! i)) \<and>
            match_id (list1 s ! i) = match_id (list2 s ! j))"
proof -
  have c: "consistent tolerance s" unfolding assms(3) by (rule match_invoices_consistent[OF assms(1,2)])
  have bound: "0 < m \<and> m < match_counter s"
    using assms(4) consistent_id_bound1[OF c] consistent_id_bound2[OF c] by blast
  with c obtain i0 j0 where p: "paired tolerance s i0 j0 m"
    unfolding consistent_def by blast
  then have i0: "i0 < length (list1 s)" "match_id (list1 s ! i0) = Some m"
    and j0: "j0 < length (list2 s)" "match_id (list2 s ! j0) = Some m"
    by (simp_all add: paired_def)
  have u1: "i = i0" if "i < length (list1 s)" "match_id (list1 s ! i) = Some m" for i
    using paired_unique1[OF c p that] by simp
  have u2: "j = j0" if "j < length (list2 s)" "match_id (list2 s ! j) = Some m" for j
    using paired_unique2[OF c p that] by simp
  have e1: "\<exists>!i. i < length (list1 s) \<and> match_id (list1 s ! i) = Some m"
    using i0 u1 by blast
  have e2: "\<exists>!j. j < length (list2 s) \<and> match_id (list2 s ! j) = Some m"
    using j0 u2 by blast
  have sym: "matched_with_row (list1 s ! i) = Some (row_idx (list2 s ! j)) \<and>
            matched_with_row (list2 s ! j) = Some (row_idx (list1 s ! i)) \<and>
            match_id (list1 s ! i) = match_id (list2 s ! j)"
    if "i < length (list1 s) \<and> match_id (list1 s ! i) = Some m \<and>
        j < length (list2 s) \<and> match_id (list2 s ! j) = Some m" for i j
  proof -
    from that have "i = i0" "j = j0" using u1 u2 by blast+
    with p show ?thesis by (simp add: paired_def)
  qed
  from bound e1 e2 sym show ?thesis by blast
qed

theorem match_symmetry_witness:
  "fresh [demo_a] \<and> fresh [demo_b] \<and>
   0 < length (list1 demo_run) \<and> match_id (list1 demo_run ! 0) = Some 1 \<and>
   (\<exists>!j. j < length (list2 demo_run) \<and> match_id (list2 demo_run ! j) = Some 1) \<and>
   matched_with_row (list1 demo_run ! 0) = Some 2 \<and> matched_with_row (list2 demo_run ! 0) = Some 2"
proof -
  have f: "fresh [demo_a]" "fresh [demo_b]"
    by (simp_all add: fresh_def unmatched_def demo_a_def demo_b_def mk_def)
  have g: "0 < length (list1 demo_run)" "match_id (list1 demo_run ! 0) = Some 1"
    by (simp_all add: demo_run_eq)
  have h: "(\<exists>i<length (list1 demo_run). match_id (list1 demo_run ! i) = Some 1) \<or>
         (\<exists>j<length (list2 demo_run). match_id (list2 demo_run ! j) = Some 1)"
    using g by blast
  have "\<exists>!j. j < length (list2 demo_run) \<and> match_id (list2 demo_run ! j) = Some 1"
    using match_symmetry[OF f demo_run_def h] by blast
  moreover have "matched_with_row (list1 demo_run ! 0) = Some 2" "matched_with_row (list2 demo_run ! 0) = Some 2"
    by (simp_all add: demo_run_eq)
  ultimately show ?thesis using f g by simp
qed

text \<open>
  Claim C3 (a record is claimed once). \<open>later s t\<close> says that \<open>t\<close> is reached from \<open>s\<close>
  by any number of loop iterations of any of the phases. A record that is claimed in
  \<open>s\<close> is the very same record in \<open>t\<close>: no later iteration and no later phase changes
  its \<open>match_id\<close>, \<open>match_type\<close> or \<open>matched_with_row\<close>, so it is never claimed by a
  second match.
\<close>
theorem claimed_record_frozen:
  assumes "later s t"
  shows "(\<forall>k<length (list1 s). claimed (list1 s ! k) \<longrightarrow> list1 t ! k = list1 s ! k) \<and>
         (\<forall>k<length (list2 s). claimed (list2 s ! k) \<longrightarrow> list2 t ! k = list2 s ! k)"
  using later_evolves[OF assms] by (simp add: evolves_def keeps_def)

lemma demo_mid_eq: "demo_mid = demo_run"
  unfolding demo_run_eq by code_simp

theorem claimed_record_frozen_witness:
  "later demo_mid demo_run \<and> 0 < length (list1 demo_mid) \<and> claimed (list1 demo_mid ! 0) \<and>
   list1 demo_run ! 0 = list1 demo_mid ! 0 \<and>
   0 < length (list2 demo_mid) \<and> claimed (list2 demo_mid ! 0) \<and>
   list2 demo_run ! 0 = list2 demo_mid ! 0"
proof -
  have l: "later demo_mid demo_run"
    unfolding demo_mid_def demo_run_def by (rule later_match_invoices)
  have g: "0 < length (list1 demo_mid)" "claimed (list1 demo_mid ! 0)"
     "0 < length (list2 demo_mid)" "claimed (list2 demo_mid ! 0)"
    by (simp_all add: demo_mid_eq demo_run_eq claimed_def)
  from claimed_record_frozen[OF l] g l show ?thesis by blast
qed

declare bisect_left_from.simps [simp del]

lemma bisect_left_from_spec:
  assumes "sorted a" "lo \<le> hi" "hi \<le> length a"
    "\<forall>k<lo. a ! k < x" "\<forall>k. hi \<le> k \<and> k < length a \<longrightarrow> x \<le> a ! k"
  shows "bisect_left_from a x lo hi \<le> length a \<and>
         (\<forall>k<bisect_left_from a x lo hi. a ! k < x) \<and>
         (\<forall>k. bisect_left_from a x lo hi \<le> k \<and> k < length a \<longrightarrow> x \<le> a ! k)"
  using assms
proof (induction a x lo hi rule: bisect_left_from.induct)
  case (1 a x lo hi)
  show ?case
  proof (cases "lo < hi")
    case False
    with "1.prems" have "lo = hi" by simp
    moreover have "bisect_left_from a x lo hi = lo"
      using False by (simp add: bisect_left_from.simps[of a x lo hi])
    ultimately show ?thesis using "1.prems" by simp
  next
    case True
    define mid where "mid = (lo + hi) div 2"
    have mid: "lo \<le> mid" "mid < hi" using True by (simp_all add: mid_def)
    show ?thesis
    proof (cases "a ! mid < x")
      case lt: True
      have eq: "bisect_left_from a x lo hi = bisect_left_from a x (mid + 1) hi"
        using True lt by (simp add: bisect_left_from.simps[of a x lo hi] mid_def Let_def)
      have below: "\<forall>k<mid + 1. a ! k < x"
      proof (intro allI impI)
        fix k assume "k < mid + 1"
        then have "k \<le> mid" by simp
        moreover have "mid < length a" using mid "1.prems" by simp
        ultimately have "a ! k \<le> a ! mid" using "1.prems"(1) by (simp add: sorted_nth_mono)
        with lt show "a ! k < x" by simp
      qed
      have "mid + 1 \<le> hi" using mid by simp
      from "1.IH"(1)[OF True mid_def lt "1.prems"(1) this "1.prems"(3) below "1.prems"(5)]
      show ?thesis unfolding eq .
    next
      case ge: False
      have eq: "bisect_left_from a x lo hi = bisect_left_from a x lo mid"
        using True ge by (simp add: bisect_left_from.simps[of a x lo hi] mid_def Let_def)
      have above: "\<forall>k. mid \<le> k \<and> k < length a \<longrightarrow> x \<le> a ! k"
      proof (intro allI impI)
        fix k assume "mid \<le> k \<and> k < length a"
        then have "a ! mid \<le> a ! k" using "1.prems"(1) by (simp add: sorted_nth_mono)
        with ge show "x \<le> a ! k" by simp
      qed
      have "mid \<le> length a" using mid "1.prems" by simp
      from "1.IH"(2)[OF True mid_def ge "1.prems"(1) mid(1) this "1.prems"(4) above]
      show ?thesis unfolding eq .
    qed
  qed
qed

lemma bisect_left_spec:
  assumes "sorted a"
  shows "bisect_left a x \<le> length a \<and> (\<forall>k<bisect_left a x. a ! k < x) \<and>
         (\<forall>k. bisect_left a x \<le> k \<and> k < length a \<longrightarrow> x \<le> a ! k)"
  unfolding bisect_left_def
  by (rule bisect_left_from_spec[OF assms]) simp_all

lemma foldl_scan_step_far:
  assumes "\<forall>k\<in>set js. \<bar>a - amount (l2 ! k)\<bar> > tolerance"
  shows "foldl (scan_step tolerance a l2) best js = best"
  using assms by (induction js arbitrary: best) (simp_all add: scan_step_def)

lemma scan_sorted_foldl:
  assumes "sorted_wrt (\<lambda>j k. \<bar>a - amount (l2 ! j)\<bar> \<le> \<bar>a - amount (l2 ! k)\<bar>) js"
  shows "scan_sorted tolerance a l2 js best = foldl (scan_step tolerance a l2) best js"
  using assms
proof (induction js arbitrary: best)
  case Nil
  show ?case by simp
next
  case (Cons j js)
  have d: "\<bar>amount (l2 ! j) - a\<bar> = \<bar>a - amount (l2 ! j)\<bar>" by (rule abs_minus_commute)
  from Cons.prems have rest: "sorted_wrt (\<lambda>j k. \<bar>a - amount (l2 ! j)\<bar> \<le> \<bar>a - amount (l2 ! k)\<bar>) js"
    and first: "\<forall>k\<in>set js. \<bar>a - amount (l2 ! j)\<bar> \<le> \<bar>a - amount (l2 ! k)\<bar>"
    by simp_all
  show ?case
  proof (cases "\<bar>a - amount (l2 ! j)\<bar> > tolerance")
    case True
    then have "\<forall>k\<in>set (j # js). \<bar>a - amount (l2 ! k)\<bar> > tolerance"
      using first by fastforce
    then have "foldl (scan_step tolerance a l2) best (j # js) = best"
      by (rule foldl_scan_step_far)
    moreover have "scan_sorted tolerance a l2 (j # js) best = best"
      using True by (simp add: d)
    ultimately show ?thesis by simp
  next
    case False
    then show ?thesis
      using Cons.IH[OF rest] by (simp add: d scan_step_def Let_def)
  qed
qed

lemma sorted_above_diffs:
  assumes "sorted (map f js)" "\<forall>j\<in>set js. (a::real) \<le> f j"
  shows "sorted_wrt (\<lambda>j k. \<bar>a - f j\<bar> \<le> \<bar>a - f k\<bar>) js"
  using assms by (induction js) auto

lemma sorted_below_diffs:
  assumes "sorted (map f js)" "\<forall>j\<in>set js. f j \<le> (a::real)"
  shows "sorted_wrt (\<lambda>j k. \<bar>a - f j\<bar> \<le> \<bar>a - f k\<bar>) (rev js)"
  using assms by (induction js) (auto simp: sorted_wrt_append)


lemma evolves_amount2:
  "evolves s0 s \<Longrightarrow> j < length (list2 s0) \<Longrightarrow> amount (list2 s ! j) = amount (list2 s0 ! j)"
  by (simp add: evolves_def keeps_def same_data_def)

lemma phase3_choice_as_scan:
  assumes ev: "evolves s0 s"
  shows "phase3_choice tolerance (sorted_candidates_map (list2 s0)) (candidates_amounts_map (list2 s0)) s i =
         best_candidate tolerance (amount (list1 s ! i)) (list2 s)
           (phase3_order (sorted_candidates_map (list2 s0) (head (list1 s ! i)))
              (candidates_amounts_map (list2 s0) (head (list1 s ! i))) (amount (list1 s ! i)))"
proof -
  define a where "a = amount (list1 s ! i)"
  define cs where "cs = sorted_candidates_map (list2 s0) (head (list1 s ! i))"
  define am where "am = candidates_amounts_map (list2 s0) (head (list1 s ! i))"
  define f where "f = (\<lambda>j. amount (list2 s ! j))"
  define idx where "idx = bisect_left am a"
  have am_f: "am = map f cs"
    unfolding am_def candidates_amounts_map_def cs_def[symmetric] f_def
    using evolves_amount2[OF ev] sorted_candidates_range cs_def by (intro map_cong refl) metis
  have "sorted (map (\<lambda>j. amount (list2 s0 ! j)) cs)"
    unfolding cs_def sorted_candidates_map_def by (rule sorted_sort_key)
  then have srt: "sorted am"
    by (simp add: am_def candidates_amounts_map_def cs_def)
  note spec = bisect_left_spec[OF srt, of a, folded idx_def]
  have len: "length am = length cs" by (simp add: am_f)
  have right: "sorted_wrt (\<lambda>j k. \<bar>a - f j\<bar> \<le> \<bar>a - f k\<bar>) (drop idx cs)"
  proof (rule sorted_above_diffs)
    show "sorted (map f (drop idx cs))"
      using srt by (simp add: am_f drop_map[symmetric] sorted_wrt_drop)
    show "\<forall>j\<in>set (drop idx cs). a \<le> f j"
    proof
      fix j assume "j \<in> set (drop idx cs)"
      then obtain k where k: "k < length (drop idx cs)" "drop idx cs ! k = j"
        by (auto simp: in_set_conv_nth)
      then have "idx + k < length am" "am ! (idx + k) = f j"
        by (auto simp: len am_f)
      with spec show "a \<le> f j" by (metis le_add1)
    qed
  qed
  have left: "sorted_wrt (\<lambda>j k. \<bar>a - f j\<bar> \<le> \<bar>a - f k\<bar>) (rev (take idx cs))"
  proof (rule sorted_below_diffs)
    show "sorted (map f (take idx cs))"
      using srt by (simp add: am_f take_map[symmetric] sorted_wrt_take)
    show "\<forall>j\<in>set (take idx cs). f j \<le> a"
    proof
      fix j assume "j \<in> set (take idx cs)"
      then obtain k where k: "k < length (take idx cs)" "take idx cs ! k = j"
        by (auto simp: in_set_conv_nth)
      then have "k < idx" "am ! k = f j"
        by (auto simp: len am_f)
      with spec have "f j < a" by metis
      then show "f j \<le> a" by simp
    qed
  qed
  have scan: "scan_sorted tolerance a (list2 s) (rev (take idx cs))
                (scan_sorted tolerance a (list2 s) (drop idx cs) None) =
              foldl (scan_step tolerance a (list2 s)) None (drop idx cs @ rev (take idx cs))"
    using scan_sorted_foldl[OF right[unfolded f_def]] scan_sorted_foldl[OF left[unfolded f_def]]
    by simp
  show ?thesis
  proof (cases "cs = []")
    case True
    then show ?thesis
      by (simp add: phase3_choice_def cs_def[symmetric] Let_def best_candidate_def phase3_order_def)
  next
    case False
    then show ?thesis
      using scan
      by (simp add: phase3_choice_def cs_def[symmetric] am_def[symmetric] a_def[symmetric]
          idx_def[symmetric] Let_def best_candidate_def phase3_order_def)
  qed
qed

lemma sorted_candidates_set:
  "j \<in> set (sorted_candidates_map l2 h) \<longleftrightarrow> j < length l2 \<and> \<not> claimed (l2 ! j) \<and> head (l2 ! j) = h"
  by (auto simp: sorted_candidates_map_def index_by_def)

lemma evolves_unclaimed2:
  assumes "evolves s0 s" "j < length (list2 s0)" "\<not> claimed (list2 s ! j)"
  shows "\<not> claimed (list2 s0 ! j)"
  using assms unfolding evolves_def keeps_def by metis

lemma evolves_unclaimed1:
  assumes "evolves s0 s" "i < length (list1 s0)" "\<not> claimed (list1 s ! i)"
  shows "\<not> claimed (list1 s0 ! i)"
  using assms unfolding evolves_def keeps_def by metis

lemma evolves_same2:
  "evolves s0 s \<Longrightarrow> j < length (list2 s0) \<Longrightarrow> same_data (list2 s0 ! j) (list2 s ! j)"
  by (simp add: evolves_def keeps_def)

lemma evolves_same1:
  "evolves s0 s \<Longrightarrow> i < length (list1 s0) \<Longrightarrow> same_data (list1 s0 ! i) (list1 s ! i)"
  by (simp add: evolves_def keeps_def)


lemma phase3_run_evolves: "evolves s0 (foldl (phase3_iter tolerance sm am) s0 js)"
  by (intro foldl_evolves phase3_iter_evolves)




lemma demo_s3_choice:
  "phase3_choice 1 (sorted_candidates_map (list2 demo_s3)) (candidates_amounts_map (list2 demo_s3)) demo_s3 0 = Some 1"
  by code_simp


lemma phase1_iter_pass:
  "phase1_iter tolerance m = pass_iter (\<lambda>r. True) (\<lambda>r. (gstin r, head r)) PERFECT_MATCH tolerance m"
  by (intro ext) (simp add: phase1_iter_def pass_iter_def phase1_choice_def Let_def)

lemma phase2a_iter_pass:
  "phase2a_iter tolerance n m = pass_iter (\<lambda>r. gstin r \<noteq> []) head (MISSING_GSTIN_IN n) tolerance m"
  by (intro ext) (simp add: phase2a_iter_def pass_iter_def phase2_choice_def Let_def)

lemma phase2b_iter_pass:
  "phase2b_iter tolerance n m = pass_iter (\<lambda>r. gstin r = []) head (MISSING_GSTIN_IN n) tolerance m"
  by (intro ext) (simp add: phase2b_iter_def pass_iter_def phase2_choice_def Let_def)

lemma pass_iter_evolves: "evolves s (pass_iter guard akey desc tolerance m s i)"
  unfolding pass_iter_def
  by (auto simp: evolves_refl split: option.split intro!: link_evolves dest: best_candidate_unclaimed)

lemma pass_run_evolves: "evolves s (foldl (pass_iter guard akey desc tolerance m) s js)"
  by (intro foldl_evolves pass_iter_evolves)

lemma index_by_mem:
  "j \<in> set (index_by key keep l2 k) \<longleftrightarrow>
     j < length l2 \<and> \<not> claimed (l2 ! j) \<and> keep (l2 ! j) \<and> key (l2 ! j) = k"
  by (auto simp: index_by_def)

lemma index_by_sorted: "sorted_wrt (<) (index_by key keep l2 k)"
  unfolding index_by_def by (intro sorted_wrt_filter sorted_wrt_upt)

lemma index_by_later_mem:
  assumes ev: "evolves s0 s" and st: "static key" "static keep"
    and j: "j < length (list2 s)" "\<not> claimed (list2 s ! j)" "keep (list2 s ! j)" "key (list2 s ! j) = k"
  shows "j \<in> set (index_by key keep (list2 s0) k)"
proof -
  have j0: "j < length (list2 s0)" using j(1) evolves_length2[OF ev] by simp
  have sd: "same_data (list2 s0 ! j) (list2 s ! j)" by (rule evolves_same2[OF ev j0])
  have "key (list2 s0 ! j) = key (list2 s ! j)" "keep (list2 s0 ! j) = keep (list2 s ! j)"
    using st sd unfolding static_def by blast+
  with j evolves_unclaimed2[OF ev j0 j(2)] j0 show ?thesis by (simp add: index_by_mem)
qed

lemma best_candidate_index_stable:
  assumes ev: "evolves s0 s" and st: "static key" "static keep"
    and b: "best_candidate tolerance a (list2 s) (index_by key keep (list2 s0) k) = Some j"
    and c: "c < length (list2 s)" "\<not> claimed (list2 s ! c)" "keep (list2 s ! c)" "key (list2 s ! c) = k"
      "\<bar>a - amount (list2 s ! c)\<bar> \<le> tolerance"
  shows "\<bar>a - amount (list2 s ! j)\<bar> \<le> \<bar>a - amount (list2 s ! c)\<bar> \<and>
         (c < j \<longrightarrow> \<bar>a - amount (list2 s ! j)\<bar> < \<bar>a - amount (list2 s ! c)\<bar>)"
proof -
  let ?cs = "index_by key keep (list2 s0) k"
  have fb: "first_best tolerance a (list2 s) ?cs j" by (rule best_candidate_Some[OF b])
  have cm: "c \<in> set ?cs" by (rule index_by_later_mem[OF ev st c(1-4)])
  have ce: "eligible tolerance a (list2 s) c" using c by (simp add: eligible_def diff_of_def)
  have le: "\<bar>a - amount (list2 s ! j)\<bar> \<le> \<bar>a - amount (list2 s ! c)\<bar>"
    using first_best_minimal[OF fb cm ce] by (simp add: diff_of_def)
  have lt: "\<bar>a - amount (list2 s ! j)\<bar> < \<bar>a - amount (list2 s ! c)\<bar>" if "c < j"
  proof -
    from fb obtain pre post where
      pp: "?cs = pre @ j # post"
          "\<forall>k\<in>set pre. eligible tolerance a (list2 s) k \<longrightarrow> diff_of a (list2 s) j < diff_of a (list2 s) k"
      unfolding first_best_def by blast
    have "sorted_wrt (<) (pre @ j # post)" using index_by_sorted[of key keep "list2 s0" k] pp(1) by simp
    then have "\<forall>x\<in>set post. j < x" by (simp add: sorted_wrt_append)
    with that have "c \<notin> set post" by fastforce
    with cm pp(1) that have "c \<in> set pre" by auto
    with pp(2) ce show ?thesis by (simp add: diff_of_def)
  qed
  from le lt show ?thesis by blast
qed

lemma static_simps:
  "static gstin" "static head" "static (\<lambda>r. (gstin r, head r))" "static (\<lambda>r. True)"
  "static (\<lambda>r. gstin r = [])" "static (\<lambda>r. gstin r \<noteq> [])"
  by (simp_all add: static_def same_data_def)

lemma phase1_run_evolves: "evolves s0 (foldl (phase1_iter tolerance m) s0 js)"
  by (intro foldl_evolves phase1_iter_evolves)

lemma phase2a_run_evolves: "evolves s0 (foldl (phase2a_iter tolerance n m) s0 js)"
  by (intro foldl_evolves phase2a_iter_evolves)

lemma phase2b_run_evolves: "evolves s0 (foldl (phase2b_iter tolerance n m) s0 js)"
  by (intro foldl_evolves phase2b_iter_evolves)

lemma choice_tie_break_stable:
  assumes ev: "evolves s0 s" and st: "static key" "static keep"
    and b: "best_candidate tolerance (amount (list1 s ! i)) (list2 s) (index_by key keep (list2 s0) k) = Some j"
  shows "tie_break_stable tolerance s i (\<lambda>r. keep r \<and> key r = k) j"
  unfolding tie_break_stable_def
  using best_candidate_index_stable[OF ev st b] by blast

text \<open>
  Claim C4 (tie-break stability), as amended: it holds in phases 1 and 2. Let \<open>s\<close> be
  the state before the iteration for \<open>list1[i]\<close> of phase 1, of sub-case A or of sub-case
  B of phase 2, and let the candidate loop of that iteration choose \<open>list2[j]\<close>. Then among
  the records of \<open>list2\<close> that are unclaimed in \<open>s\<close>, satisfy the phase's key condition
  and lie within the tolerance, \<open>list2[j]\<close> has the least amount difference, and every
  such record at an earlier position of \<open>list2\<close> has a strictly larger difference: of
  several records that tie on the least difference the earliest in the order of
  \<open>list2\<close> is chosen. In phase 3 the record chosen is the first one of least difference
  in the order of the scan (\<open>phase3_order\<close>: the sorted candidates from the insertion
  point upwards, then those below it downwards), which need not be the order of \<open>list2\<close>.
\<close>
theorem tie_break_phases_1_2:
  "(s = foldl (phase1_iter tolerance (phase1_map (list2 s0))) s0 [0..<i] \<and>
    phase1_choice tolerance (phase1_map (list2 s0)) s i = Some j \<longrightarrow>
      tie_break_stable tolerance s i
        (\<lambda>r. gstin r = gstin (list1 s ! i) \<and> head r = head (list1 s ! i)) j) \<and>
   (s = foldl (phase2a_iter tolerance name2 (phase2a_map (list2 s0))) s0 [0..<i] \<and>
    phase2_choice tolerance (phase2a_map (list2 s0)) s i = Some j \<longrightarrow>
      tie_break_stable tolerance s i (\<lambda>r. gstin r = [] \<and> head r = head (list1 s ! i)) j) \<and>
   (s = foldl (phase2b_iter tolerance name1 (phase2b_map (list2 s0))) s0 [0..<i] \<and>
    phase2_choice tolerance (phase2b_map (list2 s0)) s i = Some j \<longrightarrow>
      tie_break_stable tolerance s i (\<lambda>r. gstin r \<noteq> [] \<and> head r = head (list1 s ! i)) j) \<and>
   (s = foldl (phase3_iter tolerance (sorted_candidates_map (list2 s0))
              (candidates_amounts_map (list2 s0))) s0 [0..<i] \<and>
    phase3_choice tolerance (sorted_candidates_map (list2 s0)) (candidates_amounts_map (list2 s0)) s i
      = Some j \<longrightarrow>
      first_best tolerance (amount (list1 s ! i)) (list2 s)
        (phase3_order (sorted_candidates_map (list2 s0) (head (list1 s ! i)))
           (candidates_amounts_map (list2 s0) (head (list1 s ! i))) (amount (list1 s ! i))) j)"
proof (intro conjI impI)
  assume a: "s = foldl (phase1_iter tolerance (phase1_map (list2 s0))) s0 [0..<i] \<and>
    phase1_choice tolerance (phase1_map (list2 s0)) s i = Some j"
  then have ev: "evolves s0 s" using phase1_run_evolves by simp
  from a have "phase1_choice tolerance (phase1_map (list2 s0)) s i = Some j" by (rule conjunct2)
  then have "best_candidate tolerance (amount (list1 s ! i)) (list2 s)
      (index_by (\<lambda>r. (gstin r, head r)) (\<lambda>r. True) (list2 s0) (gstin (list1 s ! i), head (list1 s ! i))) = Some j"
    unfolding phase1_choice_def phase1_map_def Let_def .
  from choice_tie_break_stable[OF ev static_simps(3) static_simps(4) this]
  show "tie_break_stable tolerance s i (\<lambda>r. gstin r = gstin (list1 s ! i) \<and> head r = head (list1 s ! i)) j"
    by (simp add: tie_break_stable_def)
next
  assume a: "s = foldl (phase2a_iter tolerance name2 (phase2a_map (list2 s0))) s0 [0..<i] \<and>
    phase2_choice tolerance (phase2a_map (list2 s0)) s i = Some j"
  then have ev: "evolves s0 s" using phase2a_run_evolves by simp
  from a have "phase2_choice tolerance (phase2a_map (list2 s0)) s i = Some j" by (rule conjunct2)
  then have "best_candidate tolerance (amount (list1 s ! i)) (list2 s)
      (index_by head (\<lambda>r. gstin r = []) (list2 s0) (head (list1 s ! i))) = Some j"
    unfolding phase2_choice_def phase2a_map_def Let_def .
  from choice_tie_break_stable[OF ev static_simps(2) static_simps(5) this]
  show "tie_break_stable tolerance s i (\<lambda>r. gstin r = [] \<and> head r = head (list1 s ! i)) j"
    by (simp add: tie_break_stable_def)
next
  assume a: "s = foldl (phase2b_iter tolerance name1 (phase2b_map (list2 s0))) s0 [0..<i] \<and>
    phase2_choice tolerance (phase2b_map (list2 s0)) s i = Some j"
  then have ev: "evolves s0 s" using phase2b_run_evolves by simp
  from a have "phase2_choice tolerance (phase2b_map (list2 s0)) s i = Some j" by (rule conjunct2)
  then have "best_candidate tolerance (amount (list1 s ! i)) (list2 s)
      (index_by head (\<lambda>r. gstin r \<noteq> []) (list2 s0) (head (list1 s ! i))) = Some j"
    unfolding phase2_choice_def phase2b_map_def Let_def .
  from choice_tie_break_stable[OF ev static_simps(2) static_simps(6) this]
  show "tie_break_stable tolerance s i (\<lambda>r. gstin r \<noteq> [] \<and> head r = head (list1 s ! i)) j"
    by (simp add: tie_break_stable_def)
next
  assume a: "s = foldl (phase3_iter tolerance (sorted_candidates_map (list2 s0))
              (candidates_amounts_map (list2 s0))) s0 [0..<i] \<and>
    phase3_choice tolerance (sorted_candidates_map (list2 s0)) (candidates_amounts_map (list2 s0)) s i
      = Some j"
  then have ev: "evolves s0 s" using phase3_run_evolves by simp
  from a have "phase3_choice tolerance (sorted_candidates_map (list2 s0))
      (candidates_amounts_map (list2 s0)) s i = Some j" by (rule conjunct2)
  then show "first_best tolerance (amount (list1 s ! i)) (list2 s)
        (phase3_order (sorted_candidates_map (list2 s0) (head (list1 s ! i)))
           (candidates_amounts_map (list2 s0) (head (list1 s ! i))) (amount (list1 s ! i))) j"
    unfolding phase3_choice_as_scan[OF ev] by (rule best_candidate_Some)
qed

lemma demo_s1_choice: "phase1_choice 1 (phase1_map (list2 demo_s1)) demo_s1 0 = Some 0"
  by code_simp

theorem tie_break_phases_1_2_witness:
  "phase1_choice 1 (phase1_map (list2 demo_s1)) demo_s1 0 = Some 0 \<and>
   tie_break_stable 1 demo_s1 0 (\<lambda>r. gstin r = gstin (list1 demo_s1 ! 0) \<and> head r = head (list1 demo_s1 ! 0)) 0 \<and>
   \<bar>amount (list1 demo_s1 ! 0) - amount (list2 demo_s1 ! 0)\<bar> = \<bar>amount (list1 demo_s1 ! 0) - amount (list2 demo_s1 ! 1)\<bar>"
proof -
  have s: "demo_s1 = foldl (phase1_iter 1 (phase1_map (list2 demo_s1))) demo_s1 [0..<0]" by simp
  have "tie_break_stable 1 demo_s1 0 (\<lambda>r. gstin r = gstin (list1 demo_s1 ! 0) \<and> head r = head (list1 demo_s1 ! 0)) 0"
    by (rule tie_break_phases_1_2[of demo_s1 1 demo_s1 0 0, THEN conjunct1, THEN mp,
          OF conjI[OF s demo_s1_choice]])
  moreover have "\<bar>amount (list1 demo_s1 ! 0) - amount (list2 demo_s1 ! 0)\<bar> = \<bar>amount (list1 demo_s1 ! 0) - amount (list2 demo_s1 ! 1)\<bar>"
    by (simp add: demo_s1_def start_def demo_p_def demo_q_def demo_r_def mk_def)
  ultimately show ?thesis using demo_s1_choice by simp
qed

lemma demo_run3_eq:
  "demo_run3 =
     \<lparr> list1 = [demo_x\<lparr> match_id := Some 1, match_type := Some PROBABLE_MATCH, matched_with_row := Some 3 \<rparr>],
        list2 = [demo_y, demo_z\<lparr> match_id := Some 1, match_type := Some PROBABLE_MATCH, matched_with_row := Some 2 \<rparr>],
        match_counter = 2 \<rparr>"
  by code_simp

text \<open>
  Claim C4 as stated, for all phases, fails in phase 3. With tolerance 1, the record of
  amount 100 has two candidates of amount 99.5 with other identifiers, in rows 2 and 3.
  Neither phase 1 nor phase 2 applies; phase 3 sorts the two by amount (keeping their
  order), finds the insertion point behind both, scans to the left from there, meets the
  record of row 3 first and keeps it, since the record of row 2 is not strictly closer.
\<close>
theorem tie_break_phase3_counterexample:
  "fresh [demo_x] \<and> fresh [demo_y, demo_z] \<and>
   head demo_y = head demo_x \<and> head demo_z = head demo_x \<and>
   \<bar>amount demo_x - amount demo_y\<bar> = \<bar>amount demo_x - amount demo_z\<bar> \<and>
   \<bar>amount demo_x - amount demo_y\<bar> \<le> 1 \<and>
   row_idx demo_y = 2 \<and> row_idx demo_z = 3 \<and>
   matched_with_row (list1 demo_run3 ! 0) = Some 3 \<and>
   match_id (list2 demo_run3 ! 0) = None \<and> match_id (list2 demo_run3 ! 1) = Some 1 \<and>
   phase3_choice 1 (sorted_candidates_map (list2 demo_s3)) (candidates_amounts_map (list2 demo_s3)) demo_s3 0 = Some 1 \<and>
   \<not> tie_break_stable 1 demo_s3 0 (\<lambda>r. head r = head (list1 demo_s3 ! 0)) 1"
proof -
  have "\<not> tie_break_stable 1 demo_s3 0 (\<lambda>r. head r = head (list1 demo_s3 ! 0)) 1"
  proof
    assume "tie_break_stable 1 demo_s3 0 (\<lambda>r. head r = head (list1 demo_s3 ! 0)) 1"
    note t = this[unfolded tie_break_stable_def, rule_format, of 0]
    have "\<bar>amount (list1 demo_s3 ! 0) - amount (list2 demo_s3 ! 1)\<bar>
            \<le> \<bar>amount (list1 demo_s3 ! 0) - amount (list2 demo_s3 ! 0)\<bar> \<and>
          ((0::nat) < 1 \<longrightarrow> \<bar>amount (list1 demo_s3 ! 0) - amount (list2 demo_s3 ! 1)\<bar>
            < \<bar>amount (list1 demo_s3 ! 0) - amount (list2 demo_s3 ! 0)\<bar>)"
      by (rule t) (simp_all add: demo_s3_def start_def demo_x_def demo_y_def demo_z_def mk_def claimed_def)
    then show False
      by (simp add: demo_s3_def start_def demo_x_def demo_y_def demo_z_def mk_def)
  qed
  moreover have "fresh [demo_x]" "fresh [demo_y, demo_z]"
    by (simp_all add: fresh_def unmatched_def demo_x_def demo_y_def demo_z_def mk_def)
  moreover have "head demo_y = head demo_x" "head demo_z = head demo_x"
   "\<bar>amount demo_x - amount demo_y\<bar> = \<bar>amount demo_x - amount demo_z\<bar>"
   "\<bar>amount demo_x - amount demo_y\<bar> \<le> 1" "row_idx demo_y = 2" "row_idx demo_z = 3"
    by (simp_all add: demo_x_def demo_y_def demo_z_def mk_def)
  moreover have "matched_with_row (list1 demo_run3 ! 0) = Some 3"
   "match_id (list2 demo_run3 ! 1) = Some 1"
    by (simp_all add: demo_run3_eq)
  moreover have "match_id (list2 demo_run3 ! 0) = None"
    by (simp add: demo_run3_eq demo_y_def mk_def)
  ultimately show ?thesis using demo_s3_choice by simp
qed

lemma foldl_upt_split:
  assumes "i < n"
  shows "foldl f s [0..<n] = foldl f (f (foldl f s [0..<i]) i) [Suc i..<n]"
proof -
  have "[0..<n] = [0..<i] @ [i..<n]"
    using assms by (metis le_add_diff_inverse less_imp_le_nat upt_add_eq_append zero_le)
  also have "[i..<n] = i # [Suc i..<n]" using assms by (rule upt_conv_Cons)
  finally have "[0..<n] = [0..<i] @ i # [Suc i..<n]" .
  then show ?thesis by simp
qed

lemma evolves_counter: "evolves s s' \<Longrightarrow> match_counter s \<le> match_counter s'"
  by (simp add: evolves_def)

lemma link_claims1:
  assumes "i < length (list1 s)" "1 \<le> match_counter s"
  shows "claimed (list1 (link desc i j s) ! i)"
  using assms by (simp add: link_def Let_def claimed_def)

lemma evolves_claimed1:
  assumes "evolves s s'" "i < length (list1 s)" "claimed (list1 s ! i)"
  shows "claimed (list1 s' ! i)"
  using assms unfolding evolves_def keeps_def by metis

lemma pass_complete:
  assumes st: "static guard" "static akey" "static key" "static keep"
    and c1: "1 \<le> match_counter s0"
    and t: "t = foldl (pass_iter guard akey desc tolerance (index_by key keep (list2 s0))) s0
                 [0..<length (list1 s0)]"
    and ev: "evolves t s"
    and i: "i < length (list1 s0)" and j: "j < length (list2 s0)"
    and ui: "\<not> claimed (list1 s ! i)" and gi: "guard (list1 s ! i)"
    and uj: "\<not> claimed (list2 s ! j)" and kj: "keep (list2 s ! j)"
    and key: "key (list2 s ! j) = akey (list1 s ! i)"
    and tol: "\<bar>amount (list1 s ! i) - amount (list2 s ! j)\<bar> \<le> tolerance"
  shows False
proof -
  let ?f = "pass_iter guard akey desc tolerance (index_by key keep (list2 s0))"
  define si where "si = foldl ?f s0 [0..<i]"
  define u where "u = ?f si i"
  have t': "t = foldl ?f u [Suc i..<length (list1 s0)]"
    unfolding t u_def si_def by (rule foldl_upt_split[OF i])
  have e0: "evolves s0 si" unfolding si_def by (rule pass_run_evolves)
  have e1: "evolves si u" unfolding u_def by (rule pass_iter_evolves)
  have e2: "evolves u t" unfolding t' by (rule pass_run_evolves)
  have e3: "evolves u s" by (rule evolves_trans[OF e2 ev])
  have e4: "evolves si s" by (rule evolves_trans[OF e1 e3])
  have li: "i < length (list1 si)" "j < length (list2 si)"
    using i j evolves_length1[OF e0] evolves_length2[OF e0] by simp_all
  have lu: "i < length (list1 u)" using li evolves_length1[OF e1] by simp
  have ui_si: "\<not> claimed (list1 si ! i)" by (rule evolves_unclaimed1[OF e4 li(1) ui])
  have uj_si: "\<not> claimed (list2 si ! j)" by (rule evolves_unclaimed2[OF e4 li(2) uj])
  have sd1: "same_data (list1 si ! i) (list1 s ! i)" by (rule evolves_same1[OF e4 li(1)])
  have sd2: "same_data (list2 si ! j) (list2 s ! j)" by (rule evolves_same2[OF e4 li(2)])
  have g_si: "guard (list1 si ! i)" using st(1) sd1 gi unfolding static_def by blast
  have ak: "akey (list1 si ! i) = akey (list1 s ! i)" using st(2) sd1 unfolding static_def by blast
  have kp: "keep (list2 si ! j)" using st(4) sd2 kj unfolding static_def by blast
  have ky: "key (list2 si ! j) = akey (list1 si ! i)"
    using st(3) sd2 key ak unfolding static_def by metis
  have mem: "j \<in> set (index_by key keep (list2 s0) (akey (list1 si ! i)))"
    by (rule index_by_later_mem[OF e0 st(3,4) li(2) uj_si kp ky])
  have el: "eligible tolerance (amount (list1 si ! i)) (list2 si) j"
    using uj_si tol sd1 sd2 by (simp add: eligible_def diff_of_def same_data_def)
  have "best_candidate tolerance (amount (list1 si ! i)) (list2 si)
          (index_by key keep (list2 s0) (akey (list1 si ! i))) \<noteq> None"
    unfolding best_candidate_None using mem el by blast
  then obtain j' where "best_candidate tolerance (amount (list1 si ! i)) (list2 si)
          (index_by key keep (list2 s0) (akey (list1 si ! i))) = Some j'" by blast
  then have "u = link desc i j' si"
    unfolding u_def pass_iter_def using ui_si g_si by simp
  moreover have "1 \<le> match_counter si" using c1 evolves_counter[OF e0] by simp
  ultimately have "claimed (list1 u ! i)" using link_claims1[OF li(1)] by simp
  from evolves_claimed1[OF e3 lu this] ui show False by simp
qed

lemma phase1_evolves: "evolves s (phase1 tolerance s)"
  unfolding phase1_def by (rule phase1_run_evolves)

lemma phase2a_evolves: "evolves s (phase2a tolerance n s)"
  unfolding phase2a_def by (rule phase2a_run_evolves)

lemma phase2b_evolves: "evolves s (phase2b tolerance n s)"
  unfolding phase2b_def by (rule phase2b_run_evolves)

lemma phase1_leaves_no_pair:
  assumes "1 \<le> match_counter s0" "evolves (phase1 tolerance s0) s"
    "i < length (list1 s0)" "j < length (list2 s0)"
    "\<not> claimed (list1 s ! i)" "\<not> claimed (list2 s ! j)"
    "gstin (list2 s ! j) = gstin (list1 s ! i)" "head (list2 s ! j) = head (list1 s ! i)"
    "\<bar>amount (list1 s ! i) - amount (list2 s ! j)\<bar> \<le> tolerance"
  shows False
proof (rule pass_complete[where guard = "\<lambda>r. True" and akey = "\<lambda>r. (gstin r, head r)"
      and key = "\<lambda>r. (gstin r, head r)" and keep = "\<lambda>r. True" and s = s and i = i and j = j
      and ?s0.0 = s0 and tolerance = tolerance and desc = PERFECT_MATCH])
  show "phase1 tolerance s0 = foldl (pass_iter (\<lambda>r. True) (\<lambda>r. (gstin r, head r)) PERFECT_MATCH tolerance
      (index_by (\<lambda>r. (gstin r, head r)) (\<lambda>r. True) (list2 s0))) s0 [0..<length (list1 s0)]"
    by (simp add: phase1_def phase1_iter_pass phase1_map_def)
qed (use assms in \<open>simp_all add: static_simps\<close>)

lemma phase2a_leaves_no_pair:
  assumes "1 \<le> match_counter s0" "evolves (phase2a tolerance n s0) s"
    "i < length (list1 s0)" "j < length (list2 s0)"
    "\<not> claimed (list1 s ! i)" "\<not> claimed (list2 s ! j)"
    "gstin (list1 s ! i) \<noteq> []" "gstin (list2 s ! j) = []" "head (list2 s ! j) = head (list1 s ! i)"
    "\<bar>amount (list1 s ! i) - amount (list2 s ! j)\<bar> \<le> tolerance"
  shows False
proof (rule pass_complete[where guard = "\<lambda>r. gstin r \<noteq> []" and akey = head
      and key = head and keep = "\<lambda>r. gstin r = []" and s = s and i = i and j = j
      and ?s0.0 = s0 and tolerance = tolerance and desc = "MISSING_GSTIN_IN n"])
  show "phase2a tolerance n s0 = foldl (pass_iter (\<lambda>r. gstin r \<noteq> []) head (MISSING_GSTIN_IN n) tolerance
      (index_by head (\<lambda>r. gstin r = []) (list2 s0))) s0 [0..<length (list1 s0)]"
    by (simp add: phase2a_def phase2a_iter_pass phase2a_map_def)
qed (use assms in \<open>simp_all add: static_simps\<close>)

lemma phase2b_leaves_no_pair:
  assumes "1 \<le> match_counter s0" "evolves (phase2b tolerance n s0) s"
    "i < length (list1 s0)" "j < length (list2 s0)"
    "\<not> claimed (list1 s ! i)" "\<not> claimed (list2 s ! j)"
    "gstin (list1 s ! i) = []" "gstin (list2 s ! j) \<noteq> []" "head (list2 s ! j) = head (list1 s ! i)"
    "\<bar>amount (list1 s ! i) - amount (list2 s ! j)\<bar> \<le> tolerance"
  shows False
proof (rule pass_complete[where guard = "\<lambda>r. gstin r = []" and akey = head
      and key = head and keep = "\<lambda>r. gstin r \<noteq> []" and s = s and i = i and j = j
      and ?s0.0 = s0 and tolerance = tolerance and desc = "MISSING_GSTIN_IN n"])
  show "phase2b tolerance n s0 = foldl (pass_iter (\<lambda>r. gstin r = []) head (MISSING_GSTIN_IN n) tolerance
      (index_by head (\<lambda>r. gstin r \<noteq> []) (list2 s0))) s0 [0..<length (list1 s0)]"
    by (simp add: phase2b_def phase2b_iter_pass phase2b_map_def)
qed (use assms in \<open>simp_all add: static_simps\<close>)

lemma PROBABLE_not_NO_GSTINS: "PROBABLE_MATCH \<noteq> MATCH_NO_GSTINS"
  by (simp add: PROBABLE_MATCH_def MATCH_NO_GSTINS_def lit_def)

text \<open>
  Claim C10 (identifiers of a phase-3 pair). Run phases 1, 2A and 2B of \<open>match_invoices\<close>
  on any two lists, start phase 3, and let its iteration for an unclaimed \<open>list1[i]\<close>
  choose \<open>list2[j]\<close>. Then the two identifiers are either both empty or both non-empty
  and different, and the tag \<open>Match (No GSTINs)\<close> would be given only if both were
  empty. In fact the second alternative always holds: two unclaimed records with equal
  identifiers, empty ones included, the same head and amounts within the tolerance do not
  survive phase 1, and a pair with exactly one empty identifier does not survive phase 2;
  so the identifiers differ, both are non-empty, and the tag is
  \<open>Probable Match (GSTIN Mismatch)\<close>.
\<close>
theorem phase3_pairs_identifiers:
  assumes "s3 = phase2b tolerance name1 (phase2a tolerance name2 (phase1 tolerance (start l1 l2)))"
    and "sm = sorted_candidates_map (list2 s3)" and "am = candidates_amounts_map (list2 s3)"
    and "s = foldl (phase3_iter tolerance sm am) s3 [0..<i]"
    and "i < length l1" and "\<not> claimed (list1 s ! i)"
    and "phase3_choice tolerance sm am s i = Some j"
  shows "((gstin (list1 s ! i) = [] \<and> gstin (list2 s ! j) = []) \<or>
          (gstin (list1 s ! i) \<noteq> [] \<and> gstin (list2 s ! j) \<noteq> [] \<and>
           gstin (list1 s ! i) \<noteq> gstin (list2 s ! j))) \<and>
         (match_desc (list1 s ! i) (list2 s ! j) = MATCH_NO_GSTINS \<longrightarrow>
            gstin (list1 s ! i) = [] \<and> gstin (list2 s ! j) = []) \<and>
         gstin (list1 s ! i) \<noteq> gstin (list2 s ! j) \<and>
         match_desc (list1 s ! i) (list2 s ! j) = PROBABLE_MATCH"
proof -
  define s0 where "s0 = start l1 l2"
  define s1 where "s1 = phase1 tolerance s0"
  define s2 where "s2 = phase2a tolerance name2 s1"
  have s3: "s3 = phase2b tolerance name1 s2" by (simp add: assms(1) s2_def s1_def s0_def)
  have e01: "evolves s0 s1" unfolding s1_def by (rule phase1_evolves)
  have e12: "evolves s1 s2" unfolding s2_def by (rule phase2a_evolves)
  have e23: "evolves s2 s3" unfolding s3 by (rule phase2b_evolves)
  have e3: "evolves s3 s" unfolding assms(4) by (rule phase3_run_evolves)
  have e2: "evolves s2 s" by (rule evolves_trans[OF e23 e3])
  have e1: "evolves s1 s" by (rule evolves_trans[OF e12 e2])
  have c0: "1 \<le> match_counter s0" by (simp add: s0_def start_def)
  have c1: "1 \<le> match_counter s1" using c0 evolves_counter[OF e01] by simp
  have c2: "1 \<le> match_counter s2" using c1 evolves_counter[OF e12] by simp
  have i0: "i < length (list1 s0)" using assms(5) by (simp add: s0_def start_def)
  have i1: "i < length (list1 s1)" using i0 evolves_length1[OF e01] by simp
  have i2: "i < length (list1 s2)" using i1 evolves_length1[OF e12] by simp
  note snd = phase3_choice_sound[OF assms(7)]
  then have j3: "j < length (list2 s3)" and h3: "head (list2 s3 ! j) = head (list1 s ! i)"
    by (simp_all add: assms(2) sorted_candidates_set)
  have j2: "j < length (list2 s2)" using j3 evolves_length2[OF e23] by simp
  have j1: "j < length (list2 s1)" using j2 evolves_length2[OF e12] by simp
  have j0: "j < length (list2 s0)" using j1 evolves_length2[OF e01] by simp
  have hd: "head (list2 s ! j) = head (list1 s ! i)"
    using evolves_same2[OF e3 j3] h3 by (simp add: same_data_def)
  have uj: "\<not> claimed (list2 s ! j)" and tol: "\<bar>amount (list1 s ! i) - amount (list2 s ! j)\<bar> \<le> tolerance"
    using snd by (simp_all add: eligible_def diff_of_def)
  note ui = assms(6)
  have ne: "gstin (list1 s ! i) \<noteq> gstin (list2 s ! j)"
  proof
    assume "gstin (list1 s ! i) = gstin (list2 s ! j)"
    then have "gstin (list2 s ! j) = gstin (list1 s ! i)" by simp
    from phase1_leaves_no_pair[OF c0 e1[unfolded s1_def] i0 j0 ui uj this hd tol] show False .
  qed
  have a: "gstin (list1 s ! i) \<noteq> []"
  proof
    assume emp: "gstin (list1 s ! i) = []"
    with ne have "gstin (list2 s ! j) \<noteq> []" by auto
    from phase2b_leaves_no_pair[OF c2 e3[unfolded s3] i2 j2 ui uj emp this hd tol] show False .
  qed
  have b: "gstin (list2 s ! j) \<noteq> []"
  proof
    assume emp: "gstin (list2 s ! j) = []"
    from phase2a_leaves_no_pair[OF c1 e2[unfolded s2_def] i1 j1 ui uj a emp hd tol] show False .
  qed
  have d: "match_desc (list1 s ! i) (list2 s ! j) = PROBABLE_MATCH"
    using a b ne by (simp add: match_desc_def)
  from a b ne d PROBABLE_not_NO_GSTINS show ?thesis by simp
qed

lemma demo_pre3_eq: "demo_pre3 = demo_s3"
  by code_simp

theorem phase3_pairs_identifiers_witness:
  "0 < length [demo_x] \<and> \<not> claimed (list1 demo_pre3 ! 0) \<and>
   phase3_choice 1 (sorted_candidates_map (list2 demo_pre3)) (candidates_amounts_map (list2 demo_pre3)) demo_pre3 0 = Some 1 \<and>
   gstin (list1 demo_pre3 ! 0) \<noteq> [] \<and> gstin (list2 demo_pre3 ! 1) \<noteq> [] \<and>
   gstin (list1 demo_pre3 ! 0) \<noteq> gstin (list2 demo_pre3 ! 1) \<and>
   match_desc (list1 demo_pre3 ! 0) (list2 demo_pre3 ! 1) = PROBABLE_MATCH"
proof -
  have s: "demo_pre3 = foldl (phase3_iter 1 (sorted_candidates_map (list2 demo_pre3))
      (candidates_amounts_map (list2 demo_pre3))) demo_pre3 [0..<0]" by simp
  have l: "0 < length [demo_x]" by simp
  have u: "\<not> claimed (list1 demo_pre3 ! 0)"
    by (simp add: demo_pre3_eq demo_s3_def start_def demo_x_def mk_def claimed_def)
  have c: "phase3_choice 1 (sorted_candidates_map (list2 demo_pre3)) (candidates_amounts_map (list2 demo_pre3)) demo_pre3 0 = Some 1"
    unfolding demo_pre3_eq by (rule demo_s3_choice)
  note t = phase3_pairs_identifiers[OF demo_pre3_def refl refl s l u c]
  have g: "gstin (list1 demo_pre3 ! 0) \<noteq> []" "gstin (list2 demo_pre3 ! 1) \<noteq> []"
    by (simp_all add: demo_pre3_eq demo_s3_def start_def demo_x_def demo_z_def mk_def lit_def)
  from t g l u c show ?thesis by simp
qed

lemma Invoice_init_Inr:
  assumes "to_float rt (d_igst data) = Inr ig" "to_float rt (d_cgst data) = Inr cg"
    "to_float rt (d_sgst data) = Inr sg"
  shows "Invoice_init rt r data name =
     Inr \<lparr> row_idx = r,
           gstin = (let g = str_upper rt (strip rt (text_of rt (d_gstin data)))
                    in if g = lit ''NONE'' \<or> g = lit ''NAN'' then [] else g),
           igst = ig, cgst = cg, sgst = sg,
           party = strip rt (text_of rt (d_party data)),
           head = fst (classify ig cg sg), amount = snd (classify ig cg sg),
           source = name, match_id = None, match_type = None, matched_with_row = None \<rparr>"
  unfolding Invoice_init_def Let_def assms by simp

lemma classify_classified:
  assumes "igst v = ig" "cgst v = cg" "sgst v = sg"
    "head v = fst (classify ig cg sg)" "amount v = snd (classify ig cg sg)"
  shows "classified v"
  unfolding classified_def assms classify_def by simp

lemma Invoice_init_ok:
  assumes "to_float rt (d_igst data) = Inr ig" "to_float rt (d_cgst data) = Inr cg"
    "to_float rt (d_sgst data) = Inr sg"
  shows "\<exists>v. Invoice_init rt r data name = Inr v \<and> igst v = ig \<and> cgst v = cg \<and> sgst v = sg \<and>
           row_idx v = r \<and> unmatched v \<and> classified v"
proof -
  let ?v = "\<lparr> row_idx = r,
           gstin = (let g = str_upper rt (strip rt (text_of rt (d_gstin data)))
                    in if g = lit ''NONE'' \<or> g = lit ''NAN'' then [] else g),
           igst = ig, cgst = cg, sgst = sg,
           party = strip rt (text_of rt (d_party data)),
           head = fst (classify ig cg sg), amount = snd (classify ig cg sg),
           source = name, match_id = None, match_type = None, matched_with_row = None \<rparr>"
  have "classified ?v" by (rule classify_classified) simp_all
  moreover have "unmatched ?v" by (simp add: unmatched_def)
  ultimately show ?thesis using Invoice_init_Inr[OF assms, of r name] by simp
qed

lemma Invoice_init_parts:
  assumes "Invoice_init rt r data name = Inr v"
  shows "\<exists>ig cg sg. to_float rt (d_igst data) = Inr ig \<and> to_float rt (d_cgst data) = Inr cg \<and>
           to_float rt (d_sgst data) = Inr sg"
proof (cases "to_float rt (d_igst data)")
  case (Inl e)
  with assms show ?thesis by (simp add: Invoice_init_def Let_def)
next
  case ig: (Inr ig)
  show ?thesis
  proof (cases "to_float rt (d_cgst data)")
    case (Inl e)
    with assms ig show ?thesis by (simp add: Invoice_init_def Let_def)
  next
    case cg: (Inr cg)
    show ?thesis
    proof (cases "to_float rt (d_sgst data)")
      case (Inl e)
      with assms ig cg show ?thesis by (simp add: Invoice_init_def Let_def)
    next
      case (Inr sg)
      with ig cg show ?thesis by simp
    qed
  qed
qed

lemma Invoice_init_classified:
  assumes "Invoice_init rt r data name = Inr v"
  shows "classified v \<and> row_idx v = r \<and> unmatched v \<and>
         to_float rt (d_igst data) = Inr (igst v) \<and> to_float rt (d_cgst data) = Inr (cgst v) \<and>
         to_float rt (d_sgst data) = Inr (sgst v)"
proof -
  from Invoice_init_parts[OF assms] obtain ig cg sg where
    p: "to_float rt (d_igst data) = Inr ig" "to_float rt (d_cgst data) = Inr cg"
       "to_float rt (d_sgst data) = Inr sg" by blast
  from Invoice_init_ok[OF p, of r name] assms p show ?thesis by auto
qed

lemma read_rows_Cons_Inr:
  assumes "read_rows rt ws mapping name (r # rs) = Inr invoices"
    "\<not> is_empty rt (row_data ws mapping r)"
  shows "\<exists>v rest. Invoice_init rt r (row_data ws mapping r) name = Inr v \<and>
           read_rows rt ws mapping name rs = Inr rest \<and>
           invoices = (if head v \<noteq> ZERO then v # rest else rest)"
proof (cases "Invoice_init rt r (row_data ws mapping r) name")
  case (Inl e)
  with assms show ?thesis by (simp add: Let_def)
next
  case v: (Inr v)
  show ?thesis
  proof (cases "read_rows rt ws mapping name rs")
    case (Inl e)
    with assms v show ?thesis by (simp add: Let_def)
  next
    case (Inr rest)
    with assms v show ?thesis by (simp add: Let_def)
  qed
qed

lemma read_rows_sound:
  assumes "read_rows rt ws mapping name rs = Inr invoices"
  shows "list_all (\<lambda>v. classified v \<and> head v \<noteq> ZERO \<and> unmatched v \<and> row_idx v \<in> set rs) invoices"
  using assms
proof (induction rs arbitrary: invoices)
  case Nil
  then show ?case by simp
next
  case (Cons r rs)
  show ?case
  proof (cases "is_empty rt (row_data ws mapping r)")
    case True
    with Cons.prems have "read_rows rt ws mapping name rs = Inr invoices" by simp
    from Cons.IH[OF this] show ?thesis by (auto simp: list_all_iff)
  next
    case False
    from read_rows_Cons_Inr[OF Cons.prems False] obtain v rest where
      v: "Invoice_init rt r (row_data ws mapping r) name = Inr v"
      and rest: "read_rows rt ws mapping name rs = Inr rest"
      and inv: "invoices = (if head v \<noteq> ZERO then v # rest else rest)"
      by blast
    from Cons.IH[OF rest] Invoice_init_classified[OF v] inv
    show ?thesis by (auto simp: list_all_iff)
  qed
qed

lemma read_rows_complete:
  assumes "read_rows rt ws mapping name rs = Inr invoices" "r \<in> set rs"
    "\<not> is_empty rt (row_data ws mapping r)"
    "Invoice_init rt r (row_data ws mapping r) name = Inr v" "head v \<noteq> ZERO"
  shows "v \<in> set invoices"
  using assms
proof (induction rs arbitrary: invoices)
  case Nil
  then show ?case by simp
next
  case (Cons q rs)
  show ?case
  proof (cases "is_empty rt (row_data ws mapping q)")
    case True
    with Cons.prems have "read_rows rt ws mapping name rs = Inr invoices" "r \<in> set rs"
      by auto
    from Cons.IH[OF this Cons.prems(3-5)] show ?thesis .
  next
    case False
    from read_rows_Cons_Inr[OF Cons.prems(1) False] obtain w rest where
      w: "Invoice_init rt q (row_data ws mapping q) name = Inr w"
      and rest: "read_rows rt ws mapping name rs = Inr rest"
      and inv: "invoices = (if head w \<noteq> ZERO then w # rest else rest)"
      by blast
    show ?thesis
    proof (cases "r = q")
      case True
      with w Cons.prems(4,5) inv show ?thesis by simp
    next
      case False
      with Cons.prems(2) have "r \<in> set rs" by simp
      from Cons.IH[OF rest this Cons.prems(3-5)] inv show ?thesis by simp
    qed
  qed
qed

text \<open>
  Claim C7 (classification of a row). When the three tax cells of a row parse to
  \<open>ig\<close>, \<open>cg\<close> and \<open>sg\<close>, the constructor returns an invoice with these three values
  that is \<open>classified\<close>: head \<open>IGST\<close> and amount \<open>ig\<close> if \<open>|ig| > 0.01\<close>; else head
  \<open>CGST/SGST\<close> if \<open>|cg| > 0.01\<close> or \<open>|sg| > 0.01\<close>, with amount \<open>cg\<close> if \<open>|cg| > 0.01\<close>
  and \<open>sg\<close> otherwise; else head \<open>ZERO\<close>. Every record of the list that
  \<open>read_invoices\<close> returns, which is the list given to the matching phases, is classified
  so and has a head other than \<open>ZERO\<close>; the record built for a non-empty data row is in
  the list exactly when its head is not \<open>ZERO\<close>.
\<close>
theorem invoice_classification:
  "(to_float rt (d_igst data) = Inr ig \<and> to_float rt (d_cgst data) = Inr cg \<and>
    to_float rt (d_sgst data) = Inr sg \<longrightarrow>
      (\<exists>v. Invoice_init rt r data name = Inr v \<and> igst v = ig \<and> cgst v = cg \<and> sgst v = sg \<and>
           classified v)) \<and>
   (read_invoices rt ws mapping name = Inr invoices \<longrightarrow>
      list_all (\<lambda>v. classified v \<and> head v \<noteq> ZERO) invoices \<and>
      (\<forall>q v. 2 \<le> q \<and> q \<le> max_row ws \<and> \<not> is_empty rt (row_data ws mapping q) \<and>
             Invoice_init rt q (row_data ws mapping q) name = Inr v \<longrightarrow>
             (v \<in> set invoices \<longleftrightarrow> head v \<noteq> ZERO)))"
proof (intro conjI impI allI)
  assume "to_float rt (d_igst data) = Inr ig \<and> to_float rt (d_cgst data) = Inr cg \<and>
    to_float rt (d_sgst data) = Inr sg"
  then show "\<exists>v. Invoice_init rt r data name = Inr v \<and> igst v = ig \<and> cgst v = cg \<and> sgst v = sg \<and>
           classified v"
    using Invoice_init_ok[of rt data ig cg sg r name] by blast
next
  assume "read_invoices rt ws mapping name = Inr invoices"
  then have "read_rows rt ws mapping name [2..<max_row ws + 1] = Inr invoices"
    by (simp add: read_invoices_def)
  from read_rows_sound[OF this] show "list_all (\<lambda>v. classified v \<and> head v \<noteq> ZERO) invoices"
    by (simp add: list_all_iff)
next
  fix q v
  assume r: "read_invoices rt ws mapping name = Inr invoices"
    and q: "2 \<le> q \<and> q \<le> max_row ws \<and> \<not> is_empty rt (row_data ws mapping q) \<and>
             Invoice_init rt q (row_data ws mapping q) name = Inr v"
  from r have rr: "read_rows rt ws mapping name [2..<max_row ws + 1] = Inr invoices"
    by (simp add: read_invoices_def)
  from q have mem: "q \<in> set [2..<max_row ws + 1]" by auto
  show "v \<in> set invoices \<longleftrightarrow> head v \<noteq> ZERO"
  proof
    assume "v \<in> set invoices"
    with read_rows_sound[OF rr] show "head v \<noteq> ZERO" by (simp add: list_all_iff)
  next
    assume "head v \<noteq> ZERO"
    with read_rows_complete[OF rr mem] q show "v \<in> set invoices" by blast
  qed
qed

lemma demo_read:
  "read_invoices ascii_rt demo_ws demo_map (lit ''Books'') =
     Inr [demo_row 2 ''G1'' (- 50) 0 IGST (- 50), demo_row 4 ''G3'' 0 9 CGST_SGST 9]"
  by code_simp

lemma demo_data_floats:
  "to_float ascii_rt (d_igst demo_data) = Inr (- 50)"
  "to_float ascii_rt (d_cgst demo_data) = Inr 0"
  "to_float ascii_rt (d_sgst demo_data) = Inr 0"
  by code_simp+

theorem invoice_classification_witness:
  "to_float ascii_rt (d_igst demo_data) = Inr (- 50) \<and>
   to_float ascii_rt (d_cgst demo_data) = Inr 0 \<and>
   to_float ascii_rt (d_sgst demo_data) = Inr 0 \<and>
   (\<exists>v. Invoice_init ascii_rt 2 demo_data (lit ''Books'') = Inr v \<and>
        igst v = - 50 \<and> cgst v = 0 \<and> sgst v = 0 \<and> classified v) \<and>
   read_invoices ascii_rt demo_ws demo_map (lit ''Books'') =
     Inr [demo_row 2 ''G1'' (- 50) 0 IGST (- 50), demo_row 4 ''G3'' 0 9 CGST_SGST 9] \<and>
   list_all (\<lambda>v. classified v \<and> head v \<noteq> ZERO)
     [demo_row 2 ''G1'' (- 50) 0 IGST (- 50), demo_row 4 ''G3'' 0 9 CGST_SGST 9]"
proof -
  note t = invoice_classification[of ascii_rt demo_data "- 50" 0 0 2 "lit ''Books''"
      demo_ws demo_map "[demo_row 2 ''G1'' (- 50) 0 IGST (- 50), demo_row 4 ''G3'' 0 9 CGST_SGST 9]"]
  have f: "to_float ascii_rt (d_igst demo_data) = Inr (- 50) \<and>
    to_float ascii_rt (d_cgst demo_data) = Inr 0 \<and> to_float ascii_rt (d_sgst demo_data) = Inr 0"
    using demo_data_floats by blast
  have a: "\<exists>v. Invoice_init ascii_rt 2 demo_data (lit ''Books'') = Inr v \<and>
        igst v = - 50 \<and> cgst v = 0 \<and> sgst v = 0 \<and> classified v"
    by (rule t[THEN conjunct1, THEN mp, OF f])
  have b: "list_all (\<lambda>v. classified v \<and> head v \<noteq> ZERO)
     [demo_row 2 ''G1'' (- 50) 0 IGST (- 50), demo_row 4 ''G3'' 0 9 CGST_SGST 9]"
    by (rule t[THEN conjunct2, THEN mp, OF demo_read, THEN conjunct1])
  from f a b demo_read show ?thesis by (intro conjI) blast+
qed

lemma set_cell_cells:
  "cells (set_cell r c v ws) r' c' = (if r' = r \<and> c' = c then v else cells ws r' c')"
  by (simp add: set_cell_def)

lemma set_cell_max_row: "max_row (set_cell r c v ws) = max (max_row ws) r"
  by (simp add: set_cell_def)

lemma write_row_other:
  "r' \<noteq> r \<or> c \<le> max_col \<Longrightarrow> cells (write_row invoices other max_col ws r) r' c = cells ws r' c"
  by (auto simp: write_row_def set_cell_cells split: option.split)

lemma write_row_Some:
  assumes "inv_map invoices r = Some v"
  shows "annotation (write_row invoices other max_col ws r) max_col r =
     (CStr (status_of other v), opt_int (match_id v), opt_int (matched_with_row v))"
  using assms by (simp add: write_row_def annotation_def set_cell_cells)

lemma write_row_None:
  assumes "inv_map invoices r = None"
  shows "cells (write_row invoices other max_col ws r) r (max_col + 1) = CStr (lit ''Ignored/Zero'')"
  using assms by (simp add: write_row_def set_cell_cells)

lemma write_rows_other:
  assumes "r \<notin> set rs \<or> c \<le> max_col"
  shows "cells (foldl (write_row invoices other max_col) ws rs) r c = cells ws r c"
  using assms
proof (induction rs arbitrary: ws)
  case Nil
  show ?case by simp
next
  case (Cons q rs)
  have "cells (foldl (write_row invoices other max_col) (write_row invoices other max_col ws q) rs) r c
        = cells (write_row invoices other max_col ws q) r c"
    using Cons.prems by (intro Cons.IH) auto
  also have "\<dots> = cells ws r c"
    using Cons.prems by (intro write_row_other) auto
  finally show ?case by simp
qed

lemma write_rows_at:
  assumes "r \<in> set rs" "distinct rs"
  shows "cells (foldl (write_row invoices other max_col) ws rs) r c =
         cells (write_row invoices other max_col (foldl (write_row invoices other max_col) ws (takeWhile (\<lambda>q. q \<noteq> r) rs)) r) r c"
  using assms
proof (induction rs arbitrary: ws)
  case Nil
  then show ?case by simp
next
  case (Cons q rs)
  show ?case
  proof (cases "q = r")
    case True
    with Cons.prems have "r \<notin> set rs" by simp
    then have "cells (foldl (write_row invoices other max_col) (write_row invoices other max_col ws r) rs) r c
        = cells (write_row invoices other max_col ws r) r c"
      by (intro write_rows_other) simp
    with True show ?thesis by simp
  next
    case False
    with Cons.prems have "r \<in> set rs" "distinct rs" by simp_all
    from Cons.IH[OF this] False show ?thesis by simp
  qed
qed

lemma write_rows_Some:
  assumes "r \<in> set rs" "distinct rs" "inv_map invoices r = Some v"
  shows "annotation (foldl (write_row invoices other max_col) ws rs) max_col r =
     (CStr (status_of other v), opt_int (match_id v), opt_int (matched_with_row v))"
proof -
  let ?w = "foldl (write_row invoices other max_col) ws (takeWhile (\<lambda>q. q \<noteq> r) rs)"
  have "annotation (foldl (write_row invoices other max_col) ws rs) max_col r =
        annotation (write_row invoices other max_col ?w r) max_col r"
    unfolding annotation_def using write_rows_at[OF assms(1,2)] by simp
  then show ?thesis using write_row_Some[OF assms(3)] by simp
qed

lemma write_rows_None:
  assumes "r \<in> set rs" "distinct rs" "inv_map invoices r = None"
  shows "cells (foldl (write_row invoices other max_col) ws rs) r (max_col + 1) = CStr (lit ''Ignored/Zero'')"
  using write_rows_at[OF assms(1,2)] write_row_None[OF assms(3)] by simp

lemma inv_map_Some:
  assumes "distinct (map row_idx invoices)" "v \<in> set invoices"
  shows "inv_map invoices (row_idx v) = Some v"
proof -
  have "distinct (map fst (rev (map (\<lambda>v. (row_idx v, v)) invoices)))"
    using assms(1) by (simp add: rev_map[symmetric] comp_def)
  moreover have "(row_idx v, v) \<in> set (rev (map (\<lambda>v. (row_idx v, v)) invoices))"
    using assms(2) by auto
  ultimately show ?thesis unfolding inv_map_def by (rule map_of_is_SomeI)
qed

lemma inv_map_None:
  assumes "\<forall>v\<in>set invoices. row_idx v \<noteq> r"
  shows "inv_map invoices r = None"
  unfolding inv_map_def using assms by (auto simp: map_of_eq_None_iff image_iff)

lemma status_claimed:
  assumes "settled v" "claimed v"
  shows "status_of other v = the (match_type v) \<and> status_of other v \<noteq> [] \<and>
         opt_int (match_id v) = CInt (int (the (match_id v))) \<and>
         opt_int (matched_with_row v) = CInt (int (the (matched_with_row v)))"
  using assms
  by (auto simp: settled_def unmatched_def claimed_def tagged_def status_of_def opt_int_def
      split: option.splits)

lemma status_unclaimed:
  assumes "settled v" "\<not> claimed v"
  shows "status_of other v = lit ''Missing in '' @ other \<and> opt_int (match_id v) = CNone \<and>
         opt_int (matched_with_row v) = CNone"
  using assms
  by (auto simp: settled_def unmatched_def status_of_def opt_int_def)

lemma rows_range:
  assumes "2 \<le> r" "r \<le> max_row ws"
  shows "r \<in> set [2..<max_row (set_cell 1 c3 v3 (set_cell 1 c2 v2 (set_cell 1 c1 v1 ws))) + 1]"
  using assms by (auto simp: set_cell_max_row)

lemma status_nonempty: "status_of other v \<noteq> []"
  by (simp add: status_of_def lit_def split: option.split)

text \<open>
  Claim C8 (every data row is annotated). Let the records have distinct rows and be
  settled (either no match field set, or claimed with a non-empty \<open>match_type\<close> and a
  \<open>matched_with_row\<close>), as the records that \<open>match_invoices\<close> leaves are. For a data row
  \<open>r\<close> of the sheet, \<open>2 \<le> r \<le> max_row\<close>, after \<open>write_results\<close> the three added columns of
  row \<open>r\<close> hold: for a claimed record of that row its \<open>match_type\<close>, \<open>match_id\<close> and
  \<open>matched_with_row\<close>; for an unclaimed record of that row \<open>Missing in <other sheet>\<close>,
  \<open>None\<close> and \<open>None\<close>; and when no record has that row the status \<open>Ignored/Zero\<close>. In
  every case the status is a non-empty text, and the row's original columns are unchanged.
\<close>
theorem write_results_annotates:
  assumes "distinct (map row_idx invoices)" and "list_all settled invoices"
    and "2 \<le> r" and "r \<le> max_row ws"
  shows "(\<forall>v\<in>set invoices. row_idx v = r \<and> claimed v \<longrightarrow>
            annotation (write_results ws invoices this_name other_name) (max_column ws) r =
              (CStr (the (match_type v)), CInt (int (the (match_id v))),
               CInt (int (the (matched_with_row v))))) \<and>
         (\<forall>v\<in>set invoices. row_idx v = r \<and> \<not> claimed v \<longrightarrow>
            annotation (write_results ws invoices this_name other_name) (max_column ws) r =
              (CStr (lit ''Missing in '' @ other_name), CNone, CNone)) \<and>
         ((\<forall>v\<in>set invoices. row_idx v \<noteq> r) \<longrightarrow>
            cells (write_results ws invoices this_name other_name) r (max_column ws + 1) =
              CStr (lit ''Ignored/Zero'')) \<and>
         (\<exists>t. cells (write_results ws invoices this_name other_name) r (max_column ws + 1) = CStr t \<and>
              t \<noteq> []) \<and>
         (\<forall>c\<le>max_column ws. cells (write_results ws invoices this_name other_name) r c = cells ws r c)"
proof -
  let ?mc = "max_column ws"
  define ws3 where "ws3 = set_cell 1 (?mc + 3) (CStr (lit ''Matched_Row_Idx''))
      (set_cell 1 (?mc + 2) (CStr (lit ''Match_ID''))
        (set_cell 1 (?mc + 1) (CStr (lit ''Match_Status'')) ws))"
  define rs where "rs = [2..<max_row ws3 + 1]"
  have W: "write_results ws invoices this_name other_name =
           foldl (write_row invoices other_name ?mc) ws3 rs"
    by (simp add: write_results_def Let_def ws3_def rs_def)
  have mem: "r \<in> set rs" unfolding rs_def ws3_def by (rule rows_range[OF assms(3,4)])
  have dist: "distinct rs" by (simp add: rs_def)
  have some: "annotation (write_results ws invoices this_name other_name) ?mc r =
     (CStr (status_of other_name v), opt_int (match_id v), opt_int (matched_with_row v))"
    if "v \<in> set invoices" "row_idx v = r" for v
    unfolding W using inv_map_Some[OF assms(1) that(1)] that(2)
    by (intro write_rows_Some[OF mem dist]) simp
  have st: "settled v" if "v \<in> set invoices" for v
    using assms(2) that by (simp add: list_all_iff)
  have c1: "\<forall>v\<in>set invoices. row_idx v = r \<and> claimed v \<longrightarrow>
            annotation (write_results ws invoices this_name other_name) ?mc r =
              (CStr (the (match_type v)), CInt (int (the (match_id v))),
               CInt (int (the (matched_with_row v))))"
    using some st status_claimed by auto
  have c2: "\<forall>v\<in>set invoices. row_idx v = r \<and> \<not> claimed v \<longrightarrow>
            annotation (write_results ws invoices this_name other_name) ?mc r =
              (CStr (lit ''Missing in '' @ other_name), CNone, CNone)"
    using some st status_unclaimed by auto
  have c3: "(\<forall>v\<in>set invoices. row_idx v \<noteq> r) \<longrightarrow>
            cells (write_results ws invoices this_name other_name) r (?mc + 1) = CStr (lit ''Ignored/Zero'')"
    unfolding W using write_rows_None[OF mem dist inv_map_None] by blast
  have c4: "\<exists>t. cells (write_results ws invoices this_name other_name) r (?mc + 1) = CStr t \<and> t \<noteq> []"
  proof (cases "\<exists>v\<in>set invoices. row_idx v = r")
    case True
    then obtain v where v: "v \<in> set invoices" "row_idx v = r" by blast
    have "status_of other_name v \<noteq> []" by (rule status_nonempty)
    moreover have "cells (write_results ws invoices this_name other_name) r (?mc + 1) = CStr (status_of other_name v)"
      using some[OF v] by (simp add: annotation_def)
    ultimately show ?thesis by blast
  next
    case False
    with c3 show ?thesis by (auto simp: lit_def)
  qed
  have c5: "\<forall>c\<le>?mc. cells (write_results ws invoices this_name other_name) r c = cells ws r c"
  proof (intro allI impI)
    fix c assume c: "c \<le> ?mc"
    have "cells (foldl (write_row invoices other_name ?mc) ws3 rs) r c = cells ws3 r c"
      using c by (intro write_rows_other) simp
    also have "\<dots> = cells ws r c" using c by (simp add: ws3_def set_cell_cells)
    finally show "cells (write_results ws invoices this_name other_name) r c = cells ws r c"
      by (simp add: W)
  qed
  from c1 c2 c3 c4 c5 show ?thesis by blast
qed

lemma consistent_settled:
  assumes "consistent tolerance s"
  shows "list_all settled (list1 s) \<and> list_all settled (list2 s)"
proof -
  have 1: "settled (list1 s ! i)" if "i < length (list1 s)" for i
  proof (cases "unmatched (list1 s ! i)")
    case True
    then show ?thesis by (simp add: settled_def)
  next
    case False
    with assms that obtain m j where "0 < m" "paired tolerance s i j m"
      unfolding consistent_def by blast
    then show ?thesis by (simp add: settled_def paired_def claimed_def)
  qed
  have 2: "settled (list2 s ! j)" if "j < length (list2 s)" for j
  proof (cases "unmatched (list2 s ! j)")
    case True
    then show ?thesis by (simp add: settled_def)
  next
    case False
    with assms that obtain m i where "0 < m" "paired tolerance s i j m"
      unfolding consistent_def by blast
    then show ?thesis by (simp add: settled_def paired_def claimed_def tagged_def)
  qed
  from 1 2 show ?thesis by (simp add: list_all_length)
qed

lemma read_rows_distinct:
  assumes "read_rows rt ws mapping name rs = Inr invoices" "distinct rs"
  shows "distinct (map row_idx invoices)"
  using assms
proof (induction rs arbitrary: invoices)
  case Nil
  then show ?case by simp
next
  case (Cons r rs)
  show ?case
  proof (cases "is_empty rt (row_data ws mapping r)")
    case True
    with Cons.prems have "read_rows rt ws mapping name rs = Inr invoices" "distinct rs" by simp_all
    from Cons.IH[OF this] show ?thesis .
  next
    case False
    from read_rows_Cons_Inr[OF Cons.prems(1) False] obtain v rest where
      v: "Invoice_init rt r (row_data ws mapping r) name = Inr v"
      and rest: "read_rows rt ws mapping name rs = Inr rest"
      and inv: "invoices = (if head v \<noteq> ZERO then v # rest else rest)"
      by blast
    from Cons.prems(2) have d: "distinct rs" and r: "r \<notin> set rs" by simp_all
    have dr: "distinct (map row_idx rest)" by (rule Cons.IH[OF rest d])
    have "row_idx w \<in> set rs" if "w \<in> set rest" for w
      using read_rows_sound[OF rest] that by (simp add: list_all_iff)
    with r have "r \<notin> row_idx ` set rest" by auto
    moreover have "row_idx v = r" using Invoice_init_classified[OF v] by simp
    ultimately show ?thesis using dr inv by simp
  qed
qed

lemma read_invoices_ready:
  assumes "read_invoices rt ws mapping name = Inr invoices"
  shows "fresh invoices \<and> distinct (map row_idx invoices)"
proof -
  from assms have rr: "read_rows rt ws mapping name [2..<max_row ws + 1] = Inr invoices"
    by (simp add: read_invoices_def)
  from read_rows_sound[OF rr] have "fresh invoices" by (simp add: fresh_def list_all_iff)
  moreover have "distinct (map row_idx invoices)" by (rule read_rows_distinct[OF rr]) simp
  ultimately show ?thesis by blast
qed

lemma match_invoices_rows:
  "map row_idx (list1 (match_invoices l1 l2 tolerance name1 name2)) = map row_idx l1 \<and>
   map row_idx (list2 (match_invoices l1 l2 tolerance name1 name2)) = map row_idx l2"
proof -
  have "evolves (start l1 l2) (match_invoices l1 l2 tolerance name1 name2)"
    by (intro later_evolves later_start_match_invoices)
  then have k: "keeps l1 (list1 (match_invoices l1 l2 tolerance name1 name2))"
    "keeps l2 (list2 (match_invoices l1 l2 tolerance name1 name2))"
    by (simp_all add: evolves_def start_def)
  have "map row_idx l' = map row_idx l" if "keeps l l'" for l l'
    using that by (intro nth_equalityI) (simp_all add: keeps_def same_data_def)
  with k show ?thesis by blast
qed

lemma pipeline_ready_for_writing:
  assumes "read_invoices rt ws1 m1 n1 = Inr inv1" "read_invoices rt ws2 m2 n2 = Inr inv2"
    "s = match_invoices inv1 inv2 tolerance n1 n2"
  shows "distinct (map row_idx (list1 s)) \<and> list_all settled (list1 s) \<and>
         distinct (map row_idx (list2 s)) \<and> list_all settled (list2 s)"
proof -
  note r1 = read_invoices_ready[OF assms(1)] and r2 = read_invoices_ready[OF assms(2)]
  have "consistent tolerance s" unfolding assms(3)
    using r1 r2 by (intro match_invoices_consistent) simp_all
  from consistent_settled[OF this] match_invoices_rows[of inv1 inv2 tolerance n1 n2] r1 r2
  show ?thesis by (simp add: assms(3))
qed

lemma demo_out_rows:
  "annotation demo_out 3 2 = (CStr PERFECT_MATCH, CInt 1, CInt 2)"
  "annotation demo_out 3 3 = (CStr (lit ''Ignored/Zero''), CNone, CNone)"
  "annotation demo_out 3 4 = (CStr (lit ''Missing in 2B''), CNone, CNone)"
  by code_simp+

theorem write_results_annotates_witness:
  "distinct (map row_idx [demo_inv2, demo_inv4]) \<and> list_all settled [demo_inv2, demo_inv4] \<and>
   (2::nat) \<le> 2 \<and> 2 \<le> max_row demo_ws \<and> row_idx demo_inv2 = 2 \<and> claimed demo_inv2 \<and>
   annotation demo_out (max_column demo_ws) 2 =
     (CStr (the (match_type demo_inv2)), CInt (int (the (match_id demo_inv2))),
      CInt (int (the (matched_with_row demo_inv2)))) \<and>
   annotation demo_out 3 2 = (CStr PERFECT_MATCH, CInt 1, CInt 2) \<and>
   annotation demo_out 3 3 = (CStr (lit ''Ignored/Zero''), CNone, CNone) \<and>
   annotation demo_out 3 4 = (CStr (lit ''Missing in 2B''), CNone, CNone)"
proof -
  have d: "distinct (map row_idx [demo_inv2, demo_inv4])"
    by (simp add: demo_inv2_def demo_inv4_def demo_row_def)
  have s: "list_all settled [demo_inv2, demo_inv4]"
    by (simp add: settled_def unmatched_def claimed_def tagged_def demo_inv2_def demo_inv4_def
        demo_row_def PERFECT_MATCH_nonempty)
  have r: "(2::nat) \<le> 2" "2 \<le> max_row demo_ws" by (simp_all add: demo_ws_def)
  have c: "row_idx demo_inv2 = 2" "claimed demo_inv2"
    by (simp_all add: demo_inv2_def demo_row_def claimed_def)
  have m: "demo_inv2 \<in> set [demo_inv2, demo_inv4]" by simp
  note t = write_results_annotates[OF d s r, of "lit ''Books''" "lit ''2B''", THEN conjunct1,
      THEN bspec, OF m, THEN mp, OF conjI[OF c], folded demo_out_def]
  from d s r c t demo_out_rows show ?thesis by simp
qed

lemma huge_overflows: "\<bar>huge\<bar> \<ge> 2 ^ 1024 - 2 ^ 970"
  by (simp add: huge_def)

text \<open>
  Claim C6 (\<open>to_float\<close> never raises), at the input where the code fails it: an integer
  cell of value \<open>10 ^ 400\<close>. \<open>val\<close> is an \<open>int\<close>, so the second line of \<open>to_float\<close> returns
  \<open>float(val)\<close>, which raises \<open>OverflowError\<close>; the \<open>try\<close> of the function guards only the
  \<open>float\<close> of the text path.
\<close>
theorem to_float_raises_on_huge_int: "to_float rt (CInt (10 ^ 400)) = Inl OverflowError"
  using huge_overflows by (simp add: to_float_def float_of_int_def huge_def)

lemma to_float_text_total: "\<exists>x. to_float rt (CStr s) = Inr x"
  by (simp add: to_float_def Let_def split: option.split)

lemma to_float_total:
  assumes "float_safe v"
  shows "\<exists>x. to_float rt v = Inr x"
  using assms
  by (cases v) (simp_all add: to_float_def float_safe_def float_of_int_def Let_def split: option.split)

lemma to_float_error:
  assumes "to_float rt v = Inl e"
  shows "e = OverflowError \<and> \<not> float_safe v"
proof (cases "float_safe v")
  case True
  from to_float_total[OF this, of rt] assms show ?thesis by auto
next
  case False
  then obtain i where "v = CInt i" by (cases v) (simp_all add: float_safe_def)
  with assms False show ?thesis
    by (simp add: to_float_def float_of_int_def split: if_splits)
qed

lemma to_float_None: "to_float rt CNone = Inr 0"
  by (simp add: to_float_def)

lemma to_float_blank:
  assumes "strip rt s = []"
  shows "to_float rt (CStr s) = Inr 0"
  using assms by (simp add: to_float_def py_str_def)

lemma number_at_None:
  assumes "\<forall>c\<in>set s. \<not> is_digit rt c"
  shows "number_at rt s = None"
proof -
  have "takeWhile (is_digit rt) s = []" using assms by (cases s) simp_all
  then show ?thesis by (simp add: number_at_def)
qed

lemma match_at_None:
  assumes "\<forall>c\<in>set s. \<not> is_digit rt c"
  shows "match_at rt s = None"
proof (cases s)
  case Nil
  then show ?thesis by (simp add: match_at_def)
next
  case (Cons c t)
  with assms have "number_at rt t = None" "number_at rt s = None"
    by (simp_all add: number_at_None)
  with Cons show ?thesis by (auto simp: match_at_def)
qed

lemma re_search_None:
  assumes "\<forall>c\<in>set s. \<not> is_digit rt c"
  shows "re_search rt s = None"
  using assms
proof (induction s)
  case Nil
  show ?case by simp
next
  case (Cons c t)
  then have "match_at rt (c # t) = None" by (intro match_at_None) simp
  with Cons show ?case by simp
qed

lemma to_float_no_digits:
  assumes "\<forall>c\<in>set s. \<not> is_digit rt c" "\<not> is_digit rt 45"
  shows "to_float rt (CStr s) = Inr 0"
proof -
  define s1 where "s1 = strip rt s"
  define s2 where "s2 = filter (\<lambda>c. c \<noteq> 44 \<and> c \<noteq> 160 \<and> c \<noteq> 8377) s1"
  define s3 where "s3 = (if s2 \<noteq> [] \<and> hd s2 = 40 \<and> last s2 = 41 then 45 # butlast (tl s2) else s2)"
  have "set (rev (dropWhile (isspace rt) (rev (dropWhile (isspace rt) s)))) \<subseteq> set s"
    by (metis set_rev set_dropWhileD subsetI)
  then have 1: "set s1 \<subseteq> set s" by (simp add: s1_def strip_def)
  have 2: "set s2 \<subseteq> set s1" by (auto simp: s2_def)
  have "set (butlast (tl s2)) \<subseteq> set s2"
    by (cases s2) (auto dest: in_set_butlastD)
  then have 3: "set s3 \<subseteq> insert 45 (set s2)" by (auto simp: s3_def)
  from 1 2 3 assms have "\<forall>c\<in>set s3. \<not> is_digit rt c" by blast
  then have "re_search rt s3 = None" by (rule re_search_None)
  then show ?thesis
    by (simp add: to_float_def py_str_def Let_def s1_def[symmetric] s2_def[symmetric] s3_def[symmetric])
qed

lemma to_float_examples:
  "to_float ascii_rt (CStr [8377, 49, 44, 50, 51, 52, 46, 53, 54]) = Inr (123456 / 100)"
  "to_float ascii_rt (CStr (lit ''(50.00)'')) = Inr (- 50)"
  "to_float ascii_rt (CStr (lit ''(123.45)'')) = Inr (- (12345 / 100))"
  "to_float ascii_rt (CStr [32, 49, 160, 50, 51, 52, 44, 53, 54, 55, 160]) = Inr 1234567"
  "to_float ascii_rt (CStr (lit ''Rs. 12.50 only, 7 items'')) = Inr (25 / 2)"
  "to_float ascii_rt (CStr (lit ''balance -3 of 9'')) = Inr (- 3)"
  "to_float ascii_rt (CStr (lit ''n/a'')) = Inr 0"
  "to_float ascii_rt (CStr []) = Inr 0"
  "to_float ascii_rt CNone = Inr 0"
  by code_simp+

lemma validate_map_ok:
  assumes "has_col (c_gstin m)" "has_col (c_igst m) \<or> has_col (c_cgst m) \<or> has_col (c_sgst m)"
  shows "validate_map m n = Inr ()"
  using assms by (simp add: validate_map_def)

lemma validate_map_bad:
  assumes "\<not> has_col (c_gstin m) \<or> \<not> (has_col (c_igst m) \<or> has_col (c_cgst m) \<or> has_col (c_sgst m))"
  shows "\<exists>msg. validate_map m n = Inl (ValueError msg)"
  using assms by (auto simp: validate_map_def)

lemma sheet_valid_map:
  assumes "\<not> sheet_invalid rt ws"
  shows "validate_map (get_header_map rt ws) n = Inr ()"
  using assms by (intro validate_map_ok) (simp_all add: sheet_invalid_def Let_def)

lemma sheet_invalid_map:
  assumes "sheet_invalid rt ws"
  shows "\<exists>msg. validate_map (get_header_map rt ws) n = Inl (ValueError msg)"
  using assms by (intro validate_map_bad) (simp add: sheet_invalid_def Let_def)

lemma Invoice_init_error:
  assumes "Invoice_init rt r data name = Inl e"
  shows "e = OverflowError"
proof (cases "to_float rt (d_igst data)")
  case (Inl x)
  with assms to_float_error[OF Inl] show ?thesis by (simp add: Invoice_init_def Let_def)
next
  case ig: (Inr ig)
  show ?thesis
  proof (cases "to_float rt (d_cgst data)")
    case (Inl x)
    with assms ig to_float_error[OF Inl] show ?thesis by (simp add: Invoice_init_def Let_def)
  next
    case cg: (Inr cg)
    show ?thesis
    proof (cases "to_float rt (d_sgst data)")
      case (Inl x)
      with assms ig cg to_float_error[OF Inl] show ?thesis by (simp add: Invoice_init_def Let_def)
    next
      case (Inr sg)
      with assms ig cg show ?thesis by (simp add: Invoice_init_def Let_def)
    qed
  qed
qed

lemma read_rows_error:
  assumes "read_rows rt ws mapping name rs = Inl e"
  shows "e = OverflowError"
  using assms
proof (induction rs)
  case Nil
  then show ?case by simp
next
  case (Cons r rs)
  show ?case
  proof (cases "is_empty rt (row_data ws mapping r)")
    case True
    with Cons show ?thesis by simp
  next
    case False
    show ?thesis
    proof (cases "Invoice_init rt r (row_data ws mapping r) name")
      case (Inl x)
      with Cons.prems False Invoice_init_error[OF Inl] show ?thesis by (simp add: Let_def)
    next
      case v: (Inr v)
      show ?thesis
      proof (cases "read_rows rt ws mapping name rs")
        case (Inl x)
        with Cons False v show ?thesis by (simp add: Let_def)
      next
        case (Inr rest)
        with Cons.prems False v show ?thesis by (simp add: Let_def)
      qed
    qed
  qed
qed

lemma read_invoices_error: "read_invoices rt ws mapping name = Inl e \<Longrightarrow> e = OverflowError"
  unfolding read_invoices_def by (rule read_rows_error)

lemma process_invalid:
  assumes "config_invalid rt wb sheet1 sheet2"
  shows "\<exists>msg. process_reconciliation rt wb sheet1 sheet2 tolerance = Inl (ValueError msg)"
proof -
  obtain name1 name2 where r: "resolve_names rt (sheetnames wb) sheet1 sheet2 = (name1, name2)"
    by (cases "resolve_names rt (sheetnames wb) sheet1 sheet2")
  show ?thesis
  proof (cases "\<not> given name1 \<or> \<not> given name2 \<or> name1 = name2 \<or>
         the name1 \<notin> set (sheetnames wb) \<or> the name2 \<notin> set (sheetnames wb)")
    case True
    then show ?thesis by (auto simp: process_reconciliation_def Let_def r)
  next
    case False
    with assms r have inv: "sheet_invalid rt (sheet wb (the name1)) \<or> sheet_invalid rt (sheet wb (the name2))"
      by (simp add: config_invalid_def)
    show ?thesis
    proof (cases "sheet_invalid rt (sheet wb (the name1))")
      case True
      from sheet_invalid_map[OF this, of "the name1"] False show ?thesis
        by (auto simp: process_reconciliation_def Let_def r)
    next
      case v1: False
      with inv have "sheet_invalid rt (sheet wb (the name2))" by simp
      from sheet_invalid_map[OF this, of "the name2"] sheet_valid_map[OF v1, of "the name1"] False
      show ?thesis by (auto simp: process_reconciliation_def Let_def r)
    qed
  qed
qed

lemma process_valid:
  assumes "\<not> config_invalid rt wb sheet1 sheet2"
    and r: "resolve_names rt (sheetnames wb) sheet1 sheet2 = (name1, name2)"
  shows "process_reconciliation rt wb sheet1 sheet2 tolerance =
     (case read_invoices rt (sheet wb (the name1)) (get_header_map rt (sheet wb (the name1))) (the name1) of
        Inl e \<Rightarrow> Inl e
      | Inr inv1 \<Rightarrow>
         (case read_invoices rt (sheet wb (the name2)) (get_header_map rt (sheet wb (the name2))) (the name2) of
            Inl e \<Rightarrow> Inl e
          | Inr inv2 \<Rightarrow>
              Inr \<lparr> saved = wb\<lparr> sheet := (sheet wb)
                       (the name1 := write_results (sheet wb (the name1))
                          (list1 (match_invoices inv1 inv2 tolerance (the name1) (the name2))) (the name1) (the name2),
                        the name2 := write_results (sheet wb (the name2))
                          (list2 (match_invoices inv1 inv2 tolerance (the name1) (the name2))) (the name2) (the name1)) \<rparr>,
                     matched = match_invoices inv1 inv2 tolerance (the name1) (the name2) \<rparr>))"
proof -
  from assms have ok: "given name1" "given name2" "name1 \<noteq> name2"
    "the name1 \<in> set (sheetnames wb)" "the name2 \<in> set (sheetnames wb)"
    "\<not> sheet_invalid rt (sheet wb (the name1))" "\<not> sheet_invalid rt (sheet wb (the name2))"
    by (simp_all add: config_invalid_def)
  show ?thesis
    using ok(1-5) sheet_valid_map[OF ok(6), of "the name1"] sheet_valid_map[OF ok(7), of "the name2"]
    by (simp add: process_reconciliation_def Let_def r split: sum.split)
qed

lemma process_ValueError_iff:
  "(\<exists>msg. process_reconciliation rt wb sheet1 sheet2 tolerance = Inl (ValueError msg)) \<longleftrightarrow>
   config_invalid rt wb sheet1 sheet2"
proof
  assume "config_invalid rt wb sheet1 sheet2"
  then show "\<exists>msg. process_reconciliation rt wb sheet1 sheet2 tolerance = Inl (ValueError msg)"
    by (rule process_invalid)
next
  assume e: "\<exists>msg. process_reconciliation rt wb sheet1 sheet2 tolerance = Inl (ValueError msg)"
  show "config_invalid rt wb sheet1 sheet2"
  proof (rule ccontr)
    assume v: "\<not> config_invalid rt wb sheet1 sheet2"
    obtain name1 name2 where r: "resolve_names rt (sheetnames wb) sheet1 sheet2 = (name1, name2)"
      by (cases "resolve_names rt (sheetnames wb) sheet1 sheet2")
    from e obtain msg where m: "process_reconciliation rt wb sheet1 sheet2 tolerance = Inl (ValueError msg)"
      by blast
    show False
    proof (cases "read_invoices rt (sheet wb (the name1)) (get_header_map rt (sheet wb (the name1))) (the name1)")
      case (Inl x)
      with m process_valid[OF v r, of tolerance] read_invoices_error[OF Inl] show False by simp
    next
      case i1: (Inr inv1)
      show False
      proof (cases "read_invoices rt (sheet wb (the name2)) (get_header_map rt (sheet wb (the name2))) (the name2)")
        case (Inl x)
        with m i1 process_valid[OF v r, of tolerance] read_invoices_error[OF Inl] show False by simp
      next
        case (Inr inv2)
        with m i1 process_valid[OF v r, of tolerance] show False by simp
      qed
    qed
  qed
qed

lemma upload_response_error:
  "process_reconciliation rt wb sheet1 sheet2 tolerance = Inl e \<Longrightarrow>
   upload_response (process_reconciliation rt wb sheet1 sheet2 tolerance) = ErrorJson e 500"
  by (simp add: upload_response_def)

lemma overflow_wb_valid: "\<not> config_invalid ascii_rt overflow_wb None None"
  by code_simp

lemma overflow_wb_names:
  "resolve_names ascii_rt (sheetnames overflow_wb) None None = (Some (lit ''Books''), Some (lit ''2B''))"
  by code_simp

lemma overflow_wb_read:
  "read_invoices ascii_rt (sheet overflow_wb (lit ''Books''))
     (get_header_map ascii_rt (sheet overflow_wb (lit ''Books''))) (lit ''Books'') = Inl OverflowError"
  by code_simp

text \<open>
  Claim C9 (errors before matching arise exactly from an invalid configuration), at the
  input where the code fails it. The workbook has the sheets \<open>Books\<close> and \<open>2B\<close>, each with
  a \<open>GSTIN\<close> and an \<open>IGST\<close> column, so the configuration is valid and no \<open>ValueError\<close> is
  raised; the \<open>IGST\<close> cell of row 2 of \<open>Books\<close> is the integer \<open>10 ^ 400\<close>. Reading that
  row calls \<open>to_float\<close> on it, which raises \<open>OverflowError\<close> (the defect of claim C6):
  \<open>process_reconciliation\<close> raises before \<open>match_invoices\<close> is called, and the caller
  reports that error.
\<close>
theorem process_raises_with_valid_configuration:
  "\<not> config_invalid ascii_rt overflow_wb None None \<and>
   process_reconciliation ascii_rt overflow_wb None None 1 = Inl OverflowError \<and>
   upload_response (process_reconciliation ascii_rt overflow_wb None None 1) = ErrorJson OverflowError 500"
proof -
  have p: "process_reconciliation ascii_rt overflow_wb None None 1 = Inl OverflowError"
    using process_valid[OF overflow_wb_valid overflow_wb_names, of 1] overflow_wb_read by simp
  from overflow_wb_valid p upload_response_error[OF p] show ?thesis by simp
qed

lemma overflow_wb_columns:
  "c_gstin (get_header_map ascii_rt (sheet overflow_wb (lit ''Books''))) = Some 1"
  "c_igst (get_header_map ascii_rt (sheet overflow_wb (lit ''Books''))) = Some 2"
  "c_gstin (get_header_map ascii_rt (sheet overflow_wb (lit ''2B''))) = Some 1"
  "c_igst (get_header_map ascii_rt (sheet overflow_wb (lit ''2B''))) = Some 2"
  by code_simp+

theorem process_raises_with_valid_configuration_witness:
  "resolve_names ascii_rt (sheetnames overflow_wb) None None = (Some (lit ''Books''), Some (lit ''2B'')) \<and>
   sheetnames overflow_wb = [lit ''Books'', lit ''2B''] \<and>
   c_gstin (get_header_map ascii_rt (sheet overflow_wb (lit ''Books''))) = Some 1 \<and>
   c_igst (get_header_map ascii_rt (sheet overflow_wb (lit ''Books''))) = Some 2 \<and>
   c_gstin (get_header_map ascii_rt (sheet overflow_wb (lit ''2B''))) = Some 1 \<and>
   c_igst (get_header_map ascii_rt (sheet overflow_wb (lit ''2B''))) = Some 2 \<and>
   cells (sheet overflow_wb (lit ''Books'')) 2 2 = CInt (10 ^ 400) \<and>
   process_reconciliation ascii_rt overflow_wb None None 1 = Inl OverflowError"
proof -
  have "process_reconciliation ascii_rt overflow_wb None None 1 = Inl OverflowError"
    using process_raises_with_valid_configuration by (rule conjunct2[THEN conjunct1])
  moreover have "sheetnames overflow_wb = [lit ''Books'', lit ''2B'']"
    by (simp add: overflow_wb_def)
  moreover have "cells (sheet overflow_wb (lit ''Books'')) 2 2 = CInt (10 ^ 400)"
    by (simp add: overflow_wb_def overflow_sheet_def huge_def)
  ultimately show ?thesis using overflow_wb_names overflow_wb_columns by simp
qed

end
